theory Spec2Isabelle
  imports Main "HOL-Library.Word" "HOL-Library.Multiset"
begin

section \<open>The LRU cache of Challenge-1/Task-2 (LRUCache.hpp)\<close>

text \<open>
  Of the repository, the cache is what the specification covers; the string buffer of
  Task-1 and the decompression routine of Challenge-2 share nothing with it and are not
  modelled.
  The cache is a class template over the payload type and the key type; both stay type
  variables (\<open>'p\<close> for a reference to a payload, \<open>'k\<close> for the primary key). All counters
  and times of the source are \<open>int64_t\<close>: they are 64-bit words here, compared as signed
  values (\<open><s\<close>), and they wrap around where the machine does.
\<close>

type_synonym int64 = "64 word"

text \<open>
  Undefined behaviour of the C++ is a value of the model: a run that reaches one of these
  points stops with the error.
  \<^item> \<open>NullDeref\<close>: \<open>mElementMap[k]\<close> on an absent key inserts a null shared pointer, which
    the next statement dereferences;
  \<^item> \<open>EmptyContainer\<close>: \<open>front()\<close> of an empty list or \<open>rbegin()\<close> of an empty multimap is
    dereferenced;
  \<^item> \<open>InvalidIterator\<close>: the list iterator stored in an entry is used although the entry is
    not in the list;
  \<^item> \<open>Dangling\<close>: a pointer to an entry that was never allocated (shared pointers exclude
    it; the model's heap is partial, so the case is written out).
\<close>

datatype error = NullDeref | EmptyContainer | InvalidIterator | Dangling

subsection \<open>class LRUCacheElement\<close>

text \<open>
  The fields of the class, but for \<open>mElementInListIterator\<close>: the iterator of an entry
  is the list node that holds the pointer to this entry, so it is valid exactly when the
  entry's address is in \<open>mElementList\<close>. The weak pointer is the payload reference; whether
  \<open>lock()\<close> succeeds on it is decided by the payload's owners, outside the cache, and is a
  parameter \<open>alive\<close> of the operations that lock.
\<close>

record ('p, 'k) LRUCacheElement =
  mLastAccessTime :: int64
  mElementSize :: int64
  mWeakPointerElement :: 'p
  mPrimaryKey :: 'k

subsection \<open>class LRUCache: the state\<close>

text \<open>
  \<open>mElementList\<close> and \<open>mElementMap\<close> hold shared pointers to the same entry objects and
  the code mutates the entries in place, so the entries live in a store \<open>mHeap\<close> from
  addresses to entries, and list and map hold addresses. \<open>mNextFree\<close> is the address
  \<open>make_shared\<close> returns next; entries no pointer refers to any more simply stay in the
  store, unreachable. \<open>mElementSizeMap\<close> is the \<open>std::multimap\<close> from size to key as
  the sequence of its pairs in iteration order: ascending by size, pairs of one size in
  the order of their insertion.
\<close>

record ('p, 'k) LRUCache =
  mHeap :: "nat \<rightharpoonup> ('p, 'k) LRUCacheElement"
  mNextFree :: nat
  mElementList :: "nat list"
  mElementMap :: "'k \<rightharpoonup> nat"
  mElementSizeMap :: "(int64 \<times> 'k) list"
  mTotalSize :: int64
  mMaxSizeSoftLimit :: int64
  mMaxSizeHardLimit :: int64
  mTimeThresholdSec :: int64
  mCleanScheduleIntervalMs :: int64

text \<open>The constructor (the cleaner thread it may start is modelled separately).\<close>

definition new_LRUCache :: "int64 \<Rightarrow> int64 \<Rightarrow> int64 \<Rightarrow> int64 \<Rightarrow> ('p, 'k) LRUCache" where
  "new_LRUCache softSizeLimit hardSizeLimit timeThresholdSec cleaningIntervalMs =
     \<lparr> mHeap = Map.empty, mNextFree = 0, mElementList = [], mElementMap = Map.empty,
       mElementSizeMap = [], mTotalSize = 0,
       mMaxSizeSoftLimit = softSizeLimit, mMaxSizeHardLimit = hardSizeLimit,
       mTimeThresholdSec = timeThresholdSec, mCleanScheduleIntervalMs = cleaningIntervalMs \<rparr>"

text \<open>The read accessors.\<close>

definition getNumberOfElements :: "('p, 'k) LRUCache \<Rightarrow> nat" where
  "getNumberOfElements s = length (mElementList s)"

definition getSoftMaxSize :: "('p, 'k) LRUCache \<Rightarrow> int64" where
  "getSoftMaxSize s = mMaxSizeSoftLimit s"

definition getMaxSize :: "('p, 'k) LRUCache \<Rightarrow> int64" where
  "getMaxSize s = mMaxSizeHardLimit s"

definition getTimeThreshold :: "('p, 'k) LRUCache \<Rightarrow> int64" where
  "getTimeThreshold s = mTimeThresholdSec s"

definition getCleaningInterval :: "('p, 'k) LRUCache \<Rightarrow> int64" where
  "getCleaningInterval s = mCleanScheduleIntervalMs s"

subsection \<open>The operations of std::multimap the cache uses\<close>

text \<open>\<open>insert({size, key})\<close>: behind the last pair of that size (C++11).\<close>

fun sizeMap_insert :: "int64 \<Rightarrow> 'k \<Rightarrow> (int64 \<times> 'k) list \<Rightarrow> (int64 \<times> 'k) list" where
  "sizeMap_insert sz k [] = [(sz, k)]"
| "sizeMap_insert sz k (x # xs) =
     (if sz <s fst x then (sz, k) # x # xs else x # sizeMap_insert sz k xs)"

text \<open>
  The loop of \<open>updateElement\<close> over \<open>equal_range(size)\<close>: the first pair of that size
  with the given key is erased, and nothing when there is none.
\<close>

fun sizeMap_erase_key :: "int64 \<Rightarrow> 'k \<Rightarrow> (int64 \<times> 'k) list \<Rightarrow> (int64 \<times> 'k) list" where
  "sizeMap_erase_key sz k [] = []"
| "sizeMap_erase_key sz k (x # xs) =
     (if fst x = sz \<and> snd x = k then xs else x # sizeMap_erase_key sz k xs)"

text \<open>
  \<open>find(size)\<close> and \<open>equal_range(size).first\<close>: the first pair of that size. (The
  standard lets \<open>find\<close> return any pair of that size; libstdc++, libc++ and the MSVC
  library all return the lower bound.)
\<close>

fun sizeMap_find :: "int64 \<Rightarrow> (int64 \<times> 'k) list \<Rightarrow> (int64 \<times> 'k) option" where
  "sizeMap_find sz [] = None"
| "sizeMap_find sz (x # xs) = (if fst x = sz then Some x else sizeMap_find sz xs)"

text \<open>\<open>erase(it)\<close> for the iterator \<open>find(size)\<close> or \<open>equal_range(size).first\<close> gave.\<close>

fun sizeMap_erase_first :: "int64 \<Rightarrow> (int64 \<times> 'k) list \<Rightarrow> (int64 \<times> 'k) list" where
  "sizeMap_erase_first sz [] = []"
| "sizeMap_erase_first sz (x # xs) =
     (if fst x = sz then xs else x # sizeMap_erase_first sz xs)"

subsection \<open>updateElement\<close>

text \<open>
  The critical section. \<open>now\<close> is what \<open>std::time\<close> returns in \<open>updateAccessTime\<close>.
  For a key that is present the entry keeps its weak pointer: the \<open>element\<close> argument
  is only used when a new entry is made. \<open>erase\<close> through the iterator stored in an
  entry takes the node of this entry out of the list (\<open>remove1\<close>: the code pushes an
  entry only after it has erased it, so the list holds it at most once).
\<close>

definition updateElement_locked ::
  "'p \<Rightarrow> 'k \<Rightarrow> int64 \<Rightarrow> int64 \<Rightarrow> ('p, 'k) LRUCache \<Rightarrow> error + ('p, 'k) LRUCache" where
  "updateElement_locked element key sz now s =
     (case
        (case mElementMap s key of
           None \<Rightarrow>
             Inr (mNextFree s,
                  \<lparr> mLastAccessTime = 0, mElementSize = 0,
                    mWeakPointerElement = element, mPrimaryKey = key \<rparr>,
                  s\<lparr> mNextFree := Suc (mNextFree s),
                     mElementMap := (mElementMap s)(key \<mapsto> mNextFree s) \<rparr>)
         | Some a \<Rightarrow>
             (case mHeap s a of
                None \<Rightarrow> Inl Dangling
              | Some e \<Rightarrow>
                  if a \<notin> set (mElementList s) then Inl InvalidIterator
                  else Inr (a, e,
                    s\<lparr> mElementList := remove1 a (mElementList s),
                       mTotalSize := mTotalSize s - mElementSize e,
                       mElementSizeMap :=
                         sizeMap_erase_key (mElementSize e) key (mElementSizeMap s) \<rparr>)))
      of
        Inl err \<Rightarrow> Inl err
      | Inr (a, e, s1) \<Rightarrow>
          Inr (s1\<lparr> mHeap := (mHeap s1)(a \<mapsto> e\<lparr> mElementSize := sz, mLastAccessTime := now \<rparr>),
                   mTotalSize := mTotalSize s1 + sz,
                   mElementList := mElementList s1 @ [a],
                   mElementSizeMap := sizeMap_insert sz key (mElementSizeMap s1) \<rparr>))"

subsection \<open>cleanup\<close>

text \<open>
  The first half of the loop body: which entry goes, and its removal from the list and
  the size map. The result is the address \<open>leastRecentlyUsedElement\<close> holds afterwards.
  \<open>now\<close> is what \<open>std::time\<close> returns in this iteration.
\<close>

definition cleanup_select ::
  "int64 \<Rightarrow> ('p, 'k) LRUCache \<Rightarrow> error + (nat \<times> ('p, 'k) LRUCache)" where
  "cleanup_select now s =
     (case mElementList s of
        [] \<Rightarrow> Inl EmptyContainer
      | front # rest \<Rightarrow>
          (case mHeap s front of
             None \<Rightarrow> Inl Dangling
           | Some fe \<Rightarrow>
               if mTimeThresholdSec s <s now - mLastAccessTime fe then
                 (if mElementSizeMap s = [] then Inl EmptyContainer
                  else
                    (case sizeMap_find (fst (last (mElementSizeMap s))) (mElementSizeMap s) of
                       None \<Rightarrow> Inr (front, s)
                     | Some firstElementInSizeMap \<Rightarrow>
                         (case mElementMap s (snd firstElementInSizeMap) of
                            None \<Rightarrow> Inl NullDeref
                          | Some a \<Rightarrow>
                              (case mHeap s a of
                                 None \<Rightarrow> Inl Dangling
                               | Some cacheElement \<Rightarrow>
                                   if a \<notin> set (mElementList s) then Inl InvalidIterator
                                   else
                                     (case mElementMap s (mPrimaryKey cacheElement) of
                                        None \<Rightarrow> Inl NullDeref
                                      | Some a' \<Rightarrow>
                                          Inr (a',
                                            s\<lparr> mElementSizeMap :=
                                                 sizeMap_erase_first
                                                   (fst (last (mElementSizeMap s)))
                                                   (mElementSizeMap s),
                                               mElementList :=
                                                 remove1 a (mElementList s) \<rparr>))))))
               else
                 Inr (front,
                   s\<lparr> mElementList := rest,
                      mElementSizeMap :=
                        sizeMap_erase_first (mElementSize fe) (mElementSizeMap s) \<rparr>)))"

text \<open>
  The second half: the key leaves \<open>mElementMap\<close>; unless it is the key to save, the
  payload is collected when its weak pointer still locks, and the size is subtracted.
\<close>

definition cleanup_evict ::
  "'k option \<Rightarrow> ('p \<Rightarrow> bool) \<Rightarrow> nat \<Rightarrow> ('p, 'k) LRUCache \<Rightarrow>
     error + (('p, 'k) LRUCache \<times> 'p list)" where
  "cleanup_evict keyToSaveFromPurge alive a s =
     (case mHeap s a of
        None \<Rightarrow> Inl Dangling
      | Some e \<Rightarrow>
          if keyToSaveFromPurge \<noteq> Some (mPrimaryKey e) then
            Inr (s\<lparr> mElementMap := (mElementMap s)(mPrimaryKey e := None),
                    mTotalSize := mTotalSize s - mElementSize e \<rparr>,
                 if alive (mWeakPointerElement e) then [mWeakPointerElement e] else [])
          else
            Inr (s\<lparr> mElementMap := (mElementMap s)(mPrimaryKey e := None) \<rparr>, []))"

definition cleanup_iteration ::
  "int64 \<Rightarrow> 'k option \<Rightarrow> ('p \<Rightarrow> bool) \<Rightarrow> ('p, 'k) LRUCache \<Rightarrow>
     error + (('p, 'k) LRUCache \<times> 'p list)" where
  "cleanup_iteration now keyToSaveFromPurge alive s =
     (case cleanup_select now s of
        Inl err \<Rightarrow> Inl err
      | Inr (a, s1) \<Rightarrow> cleanup_evict keyToSaveFromPurge alive a s1)"

text \<open>
  Every iteration that returns takes one entry out of \<open>mElementList\<close>; the loop's
  termination rests on it.
\<close>

lemma sizeMap_find_last: "xs \<noteq> [] \<Longrightarrow> sizeMap_find (fst (last xs)) xs \<noteq> None"
  by (induction xs) auto

lemma Suc_length_pred: "a \<in> set xs \<Longrightarrow> Suc (length xs - Suc 0) = length xs"
  by (cases xs) auto

lemma cleanup_select_length:
  "cleanup_select now s = Inr (a, s1) \<Longrightarrow> Suc (length (mElementList s1)) = length (mElementList s)"
  using sizeMap_find_last [of "mElementSizeMap s"]
  by (auto simp: cleanup_select_def length_remove1 Suc_length_pred
           split: list.splits option.splits if_splits)

lemma cleanup_evict_list:
  "cleanup_evict pk alive a s1 = Inr (s2, c) \<Longrightarrow> mElementList s2 = mElementList s1"
  by (auto simp: cleanup_evict_def split: option.splits if_splits)

lemma cleanup_iteration_length:
  "cleanup_iteration now pk alive s = Inr (s2, c) \<Longrightarrow>
     length (mElementList s2) < length (mElementList s)"
  by (auto simp: cleanup_iteration_def split: sum.splits
           dest!: cleanup_select_length cleanup_evict_list)

text \<open>
  The loop under the lock. \<open>clock i\<close> is what \<open>std::time\<close> returns in iteration \<open>i\<close>
  of this call; \<open>elementsToClean\<close> is the vector of the payloads collected so far.
\<close>

function cleanup_loop ::
  "(nat \<Rightarrow> int64) \<Rightarrow> nat \<Rightarrow> 'k option \<Rightarrow> ('p \<Rightarrow> bool) \<Rightarrow> ('p, 'k) LRUCache \<Rightarrow> 'p list \<Rightarrow>
     error + (('p, 'k) LRUCache \<times> 'p list)" where
  "cleanup_loop clock i keyToSaveFromPurge alive s elementsToClean =
     (if mElementList s \<noteq> [] \<and> mMaxSizeSoftLimit s <s mTotalSize s then
        (case cleanup_iteration (clock i) keyToSaveFromPurge alive s of
           Inl err \<Rightarrow> Inl err
         | Inr (s', c) \<Rightarrow>
             cleanup_loop clock (Suc i) keyToSaveFromPurge alive s' (elementsToClean @ c))
      else Inr (s, elementsToClean))"
  by pat_completeness auto
termination
  by (relation "measure (\<lambda>(clock, i, pk, alive, s, acc). length (mElementList s))")
     (auto dest: cleanup_iteration_length)

declare cleanup_loop.simps [simp del]

text \<open>
  \<open>cleanup(keyToSaveFromPurge)\<close>: the state after the call, and the payloads whose
  \<open>cleanup()\<close> is called once the lock is released, in the order of the calls.
\<close>

definition cleanup ::
  "(nat \<Rightarrow> int64) \<Rightarrow> 'k option \<Rightarrow> ('p \<Rightarrow> bool) \<Rightarrow> ('p, 'k) LRUCache \<Rightarrow>
     error + (('p, 'k) LRUCache \<times> 'p list)" where
  "cleanup clock keyToSaveFromPurge alive s = cleanup_loop clock 0 keyToSaveFromPurge alive s []"

text \<open>\<open>updateElement\<close>: the critical section, then the test against the hard limit.\<close>

definition updateElement ::
  "'p \<Rightarrow> 'k \<Rightarrow> int64 \<Rightarrow> int64 \<Rightarrow> (nat \<Rightarrow> int64) \<Rightarrow> ('p \<Rightarrow> bool) \<Rightarrow> ('p, 'k) LRUCache \<Rightarrow>
     error + (('p, 'k) LRUCache \<times> 'p list)" where
  "updateElement element key sz now clock alive s =
     (case updateElement_locked element key sz now s of
        Inl err \<Rightarrow> Inl err
      | Inr s1 \<Rightarrow>
          if mMaxSizeHardLimit s1 <s mTotalSize s1 then cleanup clock (Some key) alive s1
          else Inr (s1, []))"

subsection \<open>getElement\<close>

text \<open>
  The result is the shared pointer returned (\<open>None\<close> for \<open>nullptr\<close>) and the state.
  \<open>splice\<close> moves the entry's node to the end of the list.
\<close>

definition getElement ::
  "('p \<Rightarrow> bool) \<Rightarrow> int64 \<Rightarrow> 'k \<Rightarrow> ('p, 'k) LRUCache \<Rightarrow> error + ('p option \<times> ('p, 'k) LRUCache)" where
  "getElement alive now key s =
     (case mElementMap s key of
        None \<Rightarrow> Inr (None, s)
      | Some a \<Rightarrow>
          (case mHeap s a of
             None \<Rightarrow> Inl Dangling
           | Some cacheElement \<Rightarrow>
               if a \<notin> set (mElementList s) then Inl InvalidIterator
               else
                 Inr (if alive (mWeakPointerElement cacheElement)
                      then Some (mWeakPointerElement cacheElement) else None,
                      s\<lparr> mHeap := (mHeap s)(a \<mapsto> cacheElement\<lparr> mLastAccessTime := now \<rparr>),
                         mElementList := remove1 a (mElementList s) @ [a] \<rparr>)))"

text \<open>\<open>dumpCache\<close>: key, size and last access time of every entry, in list order.\<close>

definition dumpCache :: "('p, 'k) LRUCache \<Rightarrow> ('k \<times> int64 \<times> int64) list" where
  "dumpCache s =
     List.map_filter
       (\<lambda>a. map_option (\<lambda>e. (mPrimaryKey e, mElementSize e, mLastAccessTime e)) (mHeap s a))
       (mElementList s)"

subsection \<open>Sequences of calls\<close>

text \<open>
  A call of the public interface with everything it reads from outside the cache: the
  times \<open>std::time\<close> returns and which payloads are still alive.
\<close>

datatype ('p, 'k) call =
    Update 'p 'k int64 int64 "nat \<Rightarrow> int64" "'p \<Rightarrow> bool"
  | Get "'p \<Rightarrow> bool" int64 'k
  | Cleanup "nat \<Rightarrow> int64" "'k option" "'p \<Rightarrow> bool"

fun call_step :: "('p, 'k) call \<Rightarrow> ('p, 'k) LRUCache \<Rightarrow> error + ('p, 'k) LRUCache" where
  "call_step (Update element key sz now clock alive) s =
     map_sum id fst (updateElement element key sz now clock alive s)"
| "call_step (Get alive now key) s = map_sum id snd (getElement alive now key s)"
| "call_step (Cleanup clock keyToSaveFromPurge alive) s =
     map_sum id fst (cleanup clock keyToSaveFromPurge alive s)"

fun run :: "('p, 'k) call list \<Rightarrow> ('p, 'k) LRUCache \<Rightarrow> error + ('p, 'k) LRUCache" where
  "run [] s = Inr s"
| "run (c # cs) s = (case call_step c s of Inl err \<Rightarrow> Inl err | Inr s' \<Rightarrow> run cs s')"

text \<open>The keys each of the three indices holds.\<close>

definition keys_of_map :: "('p, 'k) LRUCache \<Rightarrow> 'k set" where
  "keys_of_map s = dom (mElementMap s)"

definition keys_of_list :: "('p, 'k) LRUCache \<Rightarrow> 'k set" where
  "keys_of_list s =
     set (List.map_filter (\<lambda>a. map_option mPrimaryKey (mHeap s a)) (mElementList s))"

definition keys_of_sizeMap :: "('p, 'k) LRUCache \<Rightarrow> 'k set" where
  "keys_of_sizeMap s = snd ` set (mElementSizeMap s)"

subsection \<open>The cleaner thread\<close>

text \<open>
  \<open>runCleanerThreadLoop\<close> reads two things from outside in every iteration: what
  \<open>wait_for\<close> returns, and the value of \<open>mIsFinished\<close> when the last statement of the
  body reads it (under \<open>mCleanerMutex\<close>). The loop is run on the sequence of these
  observations, one pair per iteration, and yields what the thread does: the calls of
  \<open>cleanup()\<close> in order, and the exit from the loop when it happens within the
  observations given.
\<close>

datatype cv_status = no_timeout | timeout

datatype cleaner_event = CallCleanup | LoopExit

fun runCleanerThreadLoop :: "(cv_status \<times> bool) list \<Rightarrow> cleaner_event list" where
  "runCleanerThreadLoop [] = []"
| "runCleanerThreadLoop ((status, isFinished) # later) =
     (if status = timeout then [CallCleanup] else []) @
     (if isFinished then [LoopExit] else runCleanerThreadLoop later)"

subsection \<open>The inputs of the scenarios\<close>

text \<open>A clock that shows the same second throughout a call; payloads that all live.\<close>

definition at_time :: "int64 \<Rightarrow> nat \<Rightarrow> int64" where
  "at_time t i = t"

definition all_alive :: "nat \<Rightarrow> bool" where
  "all_alive p = True"

text \<open>
  The inserts of TestLRUCache.cpp: keys 1, 2, 3 with sizes 20, 20, 25 at second 0
  (payload \<open>n\<close> under key \<open>n\<close>).
\<close>

definition three_inserts :: "(nat, int) call list" where
  "three_inserts =
     [Update 1 1 20 0 (at_time 0) all_alive,
      Update 2 2 20 0 (at_time 0) all_alive,
      Update 3 3 25 0 (at_time 0) all_alive]"

text \<open>
  Two equal sizes, then a \<open>getElement\<close> of the older key, then a cleanup while both
  entries are fresh: the recency order of the two entries is now the reverse of their
  order in the size map.
\<close>

definition reordered :: "(nat, int) call list" where
  "reordered =
     [Update 1 1 20 0 (at_time 0) all_alive,
      Update 2 2 20 0 (at_time 0) all_alive,
      Get all_alive 1 1,
      Cleanup (at_time 2) None all_alive]"

text \<open>Payloads whose owners have released them all.\<close>

definition none_alive :: "nat \<Rightarrow> bool" where
  "none_alive p = False"

text \<open>Three inserts of sizes 20, 40, 20 at second 0.\<close>

definition uneven_inserts :: "(nat, int) call list" where
  "uneven_inserts =
     [Update 1 1 20 0 (at_time 0) all_alive,
      Update 2 2 40 0 (at_time 0) all_alive,
      Update 3 3 20 0 (at_time 0) all_alive]"

text \<open>Two updates of one key, each larger than the hard limit of 100.\<close>

definition oversized_twice :: "(nat, int) call list" where
  "oversized_twice =
     [Update 1 1 200 0 (at_time 0) all_alive,
      Update 1 1 200 1 (at_time 1) all_alive]"

text \<open>An update of a key, then one of the same key that exceeds the hard limit of 100.\<close>

definition grown_past_hard_limit :: "(nat, int) call list" where
  "grown_past_hard_limit =
     [Update 1 1 20 0 (at_time 0) all_alive,
      Update 1 1 200 1 (at_time 1) all_alive]"

subsection \<open>Notions the statements use\<close>

text \<open>A call on the state a run ends in; the error of the run if it ends in one.\<close>

definition and_then :: "error + 'a \<Rightarrow> ('a \<Rightarrow> error + 'b) \<Rightarrow> error + 'b" where
  "and_then r f = (case r of Inl err \<Rightarrow> Inl err | Inr x \<Rightarrow> f x)"

text \<open>What a test can see of a state: the dump, the size map and the total.\<close>

definition observe ::
  "('p, 'k) LRUCache \<Rightarrow> ('k \<times> int64 \<times> int64) list \<times> (int64 \<times> 'k) list \<times> int64" where
  "observe s = (dumpCache s, mElementSizeMap s, mTotalSize s)"

definition index_keys :: "('p, 'k) LRUCache \<Rightarrow> 'k set \<times> 'k set \<times> 'k set" where
  "index_keys s = (keys_of_map s, keys_of_list s, keys_of_sizeMap s)"

text \<open>The key a call updates, if it is an update.\<close>

fun updated_key :: "('p, 'k) call \<Rightarrow> 'k option" where
  "updated_key (Update element key sz now clock alive) = Some key"
| "updated_key (Get alive now key) = None"
| "updated_key (Cleanup clock keyToSaveFromPurge alive) = None"

text \<open>
  The Key Index and the Recency Index agree: the list holds every entry once, and the
  map sends a key to an entry exactly when the entry is in the list and has this key.
\<close>

definition consistent :: "('p, 'k) LRUCache \<Rightarrow> bool" where
  "consistent s \<longleftrightarrow>
     distinct (mElementList s) \<and>
     (\<forall>a \<in> set (mElementList s). a < mNextFree s \<and> mHeap s a \<noteq> None) \<and>
     (\<forall>k a. mElementMap s k = Some a \<longleftrightarrow>
        a \<in> set (mElementList s) \<and> (\<exists>e. mHeap s a = Some e \<and> mPrimaryKey e = k))"

text \<open>
  Size, key and live payload of the entry at an address; the sum of the sizes of the
  entries of the list, which \<open>mTotalSize\<close> is meant to track, and by how much the
  total exceeds it.
\<close>

definition entry_size :: "('p, 'k) LRUCache \<Rightarrow> nat \<Rightarrow> int64" where
  "entry_size s a = (case mHeap s a of None \<Rightarrow> 0 | Some e \<Rightarrow> mElementSize e)"

definition sum_sizes :: "('p, 'k) LRUCache \<Rightarrow> int64" where
  "sum_sizes s = sum_list (map (entry_size s) (mElementList s))"

definition excess :: "('p, 'k) LRUCache \<Rightarrow> int64" where
  "excess s = mTotalSize s - sum_sizes s"

definition entry_key :: "('p, 'k) LRUCache \<Rightarrow> nat \<Rightarrow> 'k option" where
  "entry_key s a = map_option mPrimaryKey (mHeap s a)"

definition entry_payload :: "('p \<Rightarrow> bool) \<Rightarrow> ('p, 'k) LRUCache \<Rightarrow> nat \<Rightarrow> 'p list" where
  "entry_payload alive s a =
     (case mHeap s a of
        None \<Rightarrow> []
      | Some e \<Rightarrow> if alive (mWeakPointerElement e) then [mWeakPointerElement e] else [])"

text \<open>
  The entries a call took out of the list, and what the eviction of one entry subtracts
  from the total and adds to the collected payloads when \<open>pk\<close> is the key to save.
\<close>

definition evicted :: "('p, 'k) LRUCache \<Rightarrow> ('p, 'k) LRUCache \<Rightarrow> nat multiset" where
  "evicted s s' = mset (mElementList s) - mset (mElementList s')"

definition subtracted :: "'k option \<Rightarrow> ('p, 'k) LRUCache \<Rightarrow> nat \<Rightarrow> int64" where
  "subtracted pk s a = (if pk = entry_key s a then 0 else entry_size s a)"

definition collected :: "'k option \<Rightarrow> ('p \<Rightarrow> bool) \<Rightarrow> ('p, 'k) LRUCache \<Rightarrow> nat \<Rightarrow> 'p multiset" where
  "collected pk alive s a = (if pk = entry_key s a then {#} else mset (entry_payload alive s a))"

text \<open>The four values given to the constructor are those of the other state.\<close>

definition same_config :: "('p, 'k) LRUCache \<Rightarrow> ('p, 'k) LRUCache \<Rightarrow> bool" where
  "same_config s s' \<longleftrightarrow>
     mMaxSizeSoftLimit s' = mMaxSizeSoftLimit s \<and> mMaxSizeHardLimit s' = mMaxSizeHardLimit s \<and>
     mTimeThresholdSec s' = mTimeThresholdSec s \<and>
     mCleanScheduleIntervalMs s' = mCleanScheduleIntervalMs s"

text \<open>
  What the loop of \<open>cleanup\<close> does to a state whose map and list agree, in terms of
  the entries it evicted.
\<close>

definition cleanup_effect ::
  "'k option \<Rightarrow> ('p \<Rightarrow> bool) \<Rightarrow> ('p, 'k) LRUCache \<Rightarrow> 'p list \<Rightarrow> ('p, 'k) LRUCache \<Rightarrow> 'p list \<Rightarrow> bool" where
  "cleanup_effect pk alive s acc s' cl \<longleftrightarrow>
     consistent s' \<and> mHeap s' = mHeap s \<and> mNextFree s' = mNextFree s \<and>
     mset (mElementList s') \<subseteq># mset (mElementList s) \<and>
     (\<forall>k. mElementMap s' k = (if Some k \<in> entry_key s ` set_mset (evicted s s') then None
                              else mElementMap s k)) \<and>
     mTotalSize s' = mTotalSize s - sum_mset (image_mset (subtracted pk s) (evicted s s')) \<and>
     mset cl = mset acc + sum_mset (image_mset (collected pk alive s) (evicted s s'))"

section \<open>Auxiliary facts\<close>

lemma consistent_new: "consistent (new_LRUCache so ha th iv)"
  by (simp add: consistent_def new_LRUCache_def)

lemma consistentD_map:
  "consistent s \<Longrightarrow> mElementMap s k = Some a \<Longrightarrow>
     a \<in> set (mElementList s) \<and> (\<exists>e. mHeap s a = Some e \<and> mPrimaryKey e = k)"
  by (simp add: consistent_def)

lemma consistentD_list:
  "consistent s \<Longrightarrow> a \<in> set (mElementList s) \<Longrightarrow>
     \<exists>e. mHeap s a = Some e \<and> mElementMap s (mPrimaryKey e) = Some a \<and> a < mNextFree s"
  unfolding consistent_def by (metis not_None_eq)

lemma updateElement_locked_None:
  "mElementMap s key = None \<Longrightarrow>
   updateElement_locked element key sz now s =
     Inr (s\<lparr> mHeap := (mHeap s)(mNextFree s \<mapsto>
                 \<lparr> mLastAccessTime = now, mElementSize = sz,
                   mWeakPointerElement = element, mPrimaryKey = key \<rparr>),
             mNextFree := Suc (mNextFree s),
             mElementList := mElementList s @ [mNextFree s],
             mElementMap := (mElementMap s)(key \<mapsto> mNextFree s),
             mElementSizeMap := sizeMap_insert sz key (mElementSizeMap s),
             mTotalSize := mTotalSize s + sz \<rparr>)"
  by (simp add: updateElement_locked_def)

lemma updateElement_locked_Some:
  "mElementMap s key = Some a \<Longrightarrow> mHeap s a = Some e \<Longrightarrow> a \<in> set (mElementList s) \<Longrightarrow>
   updateElement_locked element key sz now s =
     Inr (s\<lparr> mHeap := (mHeap s)(a \<mapsto> e\<lparr> mElementSize := sz, mLastAccessTime := now \<rparr>),
             mElementList := remove1 a (mElementList s) @ [a],
             mElementSizeMap :=
               sizeMap_insert sz key (sizeMap_erase_key (mElementSize e) key (mElementSizeMap s)),
             mTotalSize := mTotalSize s - mElementSize e + sz \<rparr>)"
  by (simp add: updateElement_locked_def)

lemma consistent_insert:
  assumes "consistent s" "mElementMap s key = None"
  shows "consistent (s\<lparr> mHeap := (mHeap s)(mNextFree s \<mapsto>
                 \<lparr> mLastAccessTime = now, mElementSize = sz,
                   mWeakPointerElement = element, mPrimaryKey = key \<rparr>),
             mNextFree := Suc (mNextFree s),
             mElementList := mElementList s @ [mNextFree s],
             mElementMap := (mElementMap s)(key \<mapsto> mNextFree s),
             mElementSizeMap := smap,
             mTotalSize := tot \<rparr>)"
proof -
  have fresh: "mNextFree s \<notin> set (mElementList s)"
    using assms(1) unfolding consistent_def by (metis less_irrefl)
  have nokey: "\<And>b e. b \<in> set (mElementList s) \<Longrightarrow> mHeap s b = Some e \<Longrightarrow> mPrimaryKey e \<noteq> key"
    using assms unfolding consistent_def by (metis option.distinct(1))
  show ?thesis
    using assms(1) fresh nokey
    unfolding consistent_def
    by (auto simp: less_Suc_eq)
qed

lemma consistent_touch:
  assumes "consistent s" "mElementMap s key = Some a" "mHeap s a = Some e"
    and "mPrimaryKey e' = mPrimaryKey e"
  shows "consistent (s\<lparr> mHeap := (mHeap s)(a \<mapsto> e'),
             mElementList := remove1 a (mElementList s) @ [a],
             mElementSizeMap := smap,
             mTotalSize := tot \<rparr>)"
proof -
  have a: "a \<in> set (mElementList s)" and k: "mPrimaryKey e = key"
    using consistentD_map [OF assms(1,2)] assms(3) by auto
  show ?thesis
    using assms(1,3,4) a k
    unfolding consistent_def
    by (auto simp: less_Suc_eq)
qed

lemma cleanup_select_consistent:
  assumes "consistent s" "cleanup_select now s = Inr (b, s1)"
  shows "b \<in> set (mElementList s) \<and>
         s1 = s\<lparr> mElementList := remove1 b (mElementList s),
                  mElementSizeMap := mElementSizeMap s1 \<rparr>"
proof (cases "mElementList s")
  case Nil
  with assms(2) show ?thesis by (simp add: cleanup_select_def)
next
  case (Cons front rest)
  show ?thesis
  proof (cases "mHeap s front")
    case None
    with Cons assms(2) show ?thesis by (simp add: cleanup_select_def)
  next
    case (Some fe)
    show ?thesis
    proof (cases "mTimeThresholdSec s <s now - mLastAccessTime fe")
      case False
      with Cons Some assms(2) show ?thesis
        by (auto simp: cleanup_select_def)
    next
      case True
      from assms(2) Cons Some True obtain r a e a' where
        r: "sizeMap_find (fst (last (mElementSizeMap s))) (mElementSizeMap s) = Some r"
        and a: "mElementMap s (snd r) = Some a" "mHeap s a = Some e" "a \<in> set (mElementList s)"
        and a': "mElementMap s (mPrimaryKey e) = Some a'"
        and res: "b = a'" "s1 = s\<lparr> mElementSizeMap :=
                                      sizeMap_erase_first (fst (last (mElementSizeMap s)))
                                        (mElementSizeMap s),
                                    mElementList := remove1 a (mElementList s) \<rparr>"
        using sizeMap_find_last [of "mElementSizeMap s"]
        by (auto simp: cleanup_select_def split: option.splits if_splits)
      from consistentD_map [OF assms(1) a(1)] a(2) have "mPrimaryKey e = snd r" by auto
      with a a' have "a' = a" by simp
      with res a show ?thesis by simp
    qed
  qed
qed

lemma cleanup_iteration_consistent:
  assumes "consistent s" "cleanup_iteration now pk alive s = Inr (s', c)"
  shows "\<exists>b e. b \<in> set (mElementList s) \<and> mHeap s b = Some e \<and>
           s' = s\<lparr> mElementList := remove1 b (mElementList s),
                    mElementSizeMap := mElementSizeMap s',
                    mElementMap := (mElementMap s)(mPrimaryKey e := None),
                    mTotalSize := (if pk = Some (mPrimaryKey e) then mTotalSize s
                                   else mTotalSize s - mElementSize e) \<rparr> \<and>
           c = (if pk = Some (mPrimaryKey e) then [] else entry_payload alive s b)"
proof -
  from assms(2) obtain b s1 where
    sel: "cleanup_select now s = Inr (b, s1)" and ev: "cleanup_evict pk alive b s1 = Inr (s', c)"
    by (auto simp: cleanup_iteration_def split: sum.splits)
  from cleanup_select_consistent [OF assms(1) sel] have
    b: "b \<in> set (mElementList s)" and
    s1: "s1 = s\<lparr> mElementList := remove1 b (mElementList s),
                  mElementSizeMap := mElementSizeMap s1 \<rparr>" by blast+
  from consistentD_list [OF assms(1) b] obtain e where e: "mHeap s b = Some e" by blast
  have h1: "mHeap s1 = mHeap s" "mElementMap s1 = mElementMap s" "mTotalSize s1 = mTotalSize s"
    by (subst s1, simp)+
  from ev e h1 have "s' = s1\<lparr> mElementMap := (mElementMap s)(mPrimaryKey e := None),
                    mTotalSize := (if pk = Some (mPrimaryKey e) then mTotalSize s
                                   else mTotalSize s - mElementSize e) \<rparr>"
    and c: "c = (if pk = Some (mPrimaryKey e) then [] else entry_payload alive s b)"
    by (auto simp: cleanup_evict_def entry_payload_def split: if_splits)
  then have "s' = s\<lparr> mElementList := remove1 b (mElementList s),
                    mElementSizeMap := mElementSizeMap s',
                    mElementMap := (mElementMap s)(mPrimaryKey e := None),
                    mTotalSize := (if pk = Some (mPrimaryKey e) then mTotalSize s
                                   else mTotalSize s - mElementSize e) \<rparr>"
    by (subst (asm) s1) simp
  with b e c show ?thesis by blast
qed

lemma consistent_remove:
  assumes "consistent s" "b \<in> set (mElementList s)" "mHeap s b = Some e"
  shows "consistent (s\<lparr> mElementList := remove1 b (mElementList s),
                    mElementSizeMap := smap,
                    mElementMap := (mElementMap s)(mPrimaryKey e := None),
                    mTotalSize := tot \<rparr>)"
proof -
  have d: "distinct (mElementList s)" using assms(1) by (simp add: consistent_def)
  have rem: "set (remove1 b (mElementList s)) = set (mElementList s) - {b}"
    using d by (rule set_remove1_eq)
  have bnd: "\<forall>a \<in> set (mElementList s). a < mNextFree s \<and> mHeap s a \<noteq> None"
    using assms(1) by (simp add: consistent_def)
  have agree: "\<And>k a. mElementMap s k = Some a \<longleftrightarrow>
        a \<in> set (mElementList s) \<and> (\<exists>e. mHeap s a = Some e \<and> mPrimaryKey e = k)"
    using assms(1) unfolding consistent_def by blast
  have m: "mElementMap s (mPrimaryKey e) = Some b"
    using agree assms(2,3) by blast
  have new: "((mElementMap s)(mPrimaryKey e := None)) k = Some a \<longleftrightarrow>
        a \<in> set (mElementList s) - {b} \<and> (\<exists>e. mHeap s a = Some e \<and> mPrimaryKey e = k)"
    for k a
  proof (cases "k = mPrimaryKey e")
    case True
    have "\<not> (a \<in> set (mElementList s) - {b} \<and> (\<exists>e'. mHeap s a = Some e' \<and> mPrimaryKey e' = k))"
    proof
      assume "a \<in> set (mElementList s) - {b} \<and> (\<exists>e'. mHeap s a = Some e' \<and> mPrimaryKey e' = k)"
      then have "mElementMap s k = Some a" and "a \<noteq> b" using agree by auto
      with m True show False by simp
    qed
    with True show ?thesis by simp
  next
    case False
    have "a = b \<Longrightarrow> \<not> (\<exists>e'. mHeap s a = Some e' \<and> mPrimaryKey e' = k)"
      using assms(3) False by auto
    with False agree [of k a] show ?thesis by auto
  qed
  show ?thesis
    unfolding consistent_def
    using d bnd new by (simp add: rem)
qed

lemma mset_diff_step:
  assumes "b \<in># M" "N \<subseteq># M - {#b#}"
  shows "M - N = add_mset b (M - {#b#} - N)"
  using assms
  by (metis add_mset_add_single insert_DiffM subset_mset.add_diff_assoc2 union_commute add_mset_diff_bothsides diff_single_trivial multi_self_add_other_not_self)

lemma cleanup_loop_effect:
  "consistent s \<Longrightarrow> cleanup_loop clock i pk alive s acc = Inr (s', cl) \<Longrightarrow>
     cleanup_effect pk alive s acc s' cl"
proof (induction clock i pk alive s acc rule: cleanup_loop.induct)
  case (1 clock i pk alive s acc)
  show ?case
  proof (cases "mElementList s \<noteq> [] \<and> mMaxSizeSoftLimit s <s mTotalSize s")
    case False
    with "1.prems" have "s' = s" "cl = acc"
      by (auto simp: cleanup_loop.simps [of clock i pk alive s acc])
    with "1.prems"(1) show ?thesis
      by (simp add: cleanup_effect_def evicted_def)
  next
    case True
    with "1.prems"(2) obtain s1 c where
      it: "cleanup_iteration (clock i) pk alive s = Inr (s1, c)" and
      rest: "cleanup_loop clock (Suc i) pk alive s1 (acc @ c) = Inr (s', cl)"
      by (auto simp: cleanup_loop.simps [of clock i pk alive s acc] split: sum.splits)
    from cleanup_iteration_consistent [OF "1.prems"(1) it] obtain b e where
      b: "b \<in> set (mElementList s)" and e: "mHeap s b = Some e" and
      s1: "s1 = s\<lparr> mElementList := remove1 b (mElementList s),
                    mElementSizeMap := mElementSizeMap s1,
                    mElementMap := (mElementMap s)(mPrimaryKey e := None),
                    mTotalSize := (if pk = Some (mPrimaryKey e) then mTotalSize s
                                   else mTotalSize s - mElementSize e) \<rparr>" and
      c: "c = (if pk = Some (mPrimaryKey e) then [] else entry_payload alive s b)"
      by blast
    have c1: "consistent s1"
      by (subst s1) (rule consistent_remove [OF "1.prems"(1) b e])
    have f1: "mHeap s1 = mHeap s" "mNextFree s1 = mNextFree s"
      "mElementList s1 = remove1 b (mElementList s)"
      "mElementMap s1 = (mElementMap s)(mPrimaryKey e := None)"
      "mTotalSize s1 = (if pk = Some (mPrimaryKey e) then mTotalSize s
                                   else mTotalSize s - mElementSize e)"
      by (subst s1, simp)+
    from "1.IH" [OF True it refl c1 rest]
    have ih: "cleanup_effect pk alive s1 (acc @ c) s' cl" .
    have ek: "entry_key s1 = entry_key s" "entry_size s1 = entry_size s"
      "entry_payload alive s1 = entry_payload alive s"
      by (simp_all add: fun_eq_iff entry_key_def entry_size_def entry_payload_def f1)
    have sub: "subtracted pk s1 = subtracted pk s" "collected pk alive s1 = collected pk alive s"
      by (simp_all add: fun_eq_iff subtracted_def collected_def ek)
    have le: "mset (mElementList s') \<subseteq># mset (mElementList s) - {#b#}"
      using ih by (simp add: cleanup_effect_def f1)
    have ev: "evicted s s' = add_mset b (evicted s1 s')"
      unfolding evicted_def f1 using mset_diff_step [OF _ le] b by simp
    have kb: "entry_key s b = Some (mPrimaryKey e)" "entry_size s b = mElementSize e"
      using e by (simp_all add: entry_key_def entry_size_def)
    have tot: "mTotalSize s' = mTotalSize s - sum_mset (image_mset (subtracted pk s) (evicted s s'))"
      using ih by (simp add: cleanup_effect_def ev sub f1 subtracted_def kb)
    have col: "mset cl = mset acc + sum_mset (image_mset (collected pk alive s) (evicted s s'))"
      using ih by (simp add: cleanup_effect_def ev sub c collected_def kb)
    have mp: "mElementMap s' k = (if Some k \<in> entry_key s ` set_mset (evicted s s') then None
                              else mElementMap s k)" for k
      using ih by (auto simp: cleanup_effect_def ev ek f1 kb)
    have "mset (mElementList s') \<subseteq># mset (mElementList s)"
      using le by (meson diff_subset_eq_self subset_mset.order_trans)
    with ih tot col mp show ?thesis
      by (simp add: cleanup_effect_def f1)
  qed
qed

lemma same_config_refl: "same_config s s"
  by (simp add: same_config_def)

lemma same_config_trans: "same_config s s1 \<Longrightarrow> same_config s1 s2 \<Longrightarrow> same_config s s2"
  by (simp add: same_config_def)

lemma updateElement_locked_config:
  "updateElement_locked element key sz now s = Inr s1 \<Longrightarrow> same_config s s1"
  by (auto simp: updateElement_locked_def same_config_def split: option.splits if_splits)

lemma cleanup_select_config: "cleanup_select now s = Inr (a, s1) \<Longrightarrow> same_config s s1"
  by (auto simp: cleanup_select_def same_config_def split: list.splits option.splits if_splits)

lemma cleanup_evict_config: "cleanup_evict pk alive a s1 = Inr (s2, c) \<Longrightarrow> same_config s1 s2"
  by (auto simp: cleanup_evict_def same_config_def split: option.splits if_splits)

lemma cleanup_iteration_config:
  "cleanup_iteration now pk alive s = Inr (s2, c) \<Longrightarrow> same_config s s2"
  by (auto simp: cleanup_iteration_def split: sum.splits
           dest!: cleanup_select_config cleanup_evict_config intro: same_config_trans)

lemma cleanup_loop_config:
  "cleanup_loop clock i pk alive s acc = Inr (s', cl) \<Longrightarrow> same_config s s'"
proof (induction clock i pk alive s acc rule: cleanup_loop.induct)
  case (1 clock i pk alive s acc)
  show ?case
  proof (cases "mElementList s \<noteq> [] \<and> mMaxSizeSoftLimit s <s mTotalSize s")
    case False
    with "1.prems" show ?thesis
      by (auto simp: cleanup_loop.simps [of clock i pk alive s acc] same_config_refl)
  next
    case True
    with "1.prems" obtain s1 c where
      it: "cleanup_iteration (clock i) pk alive s = Inr (s1, c)" and
      rest: "cleanup_loop clock (Suc i) pk alive s1 (acc @ c) = Inr (s', cl)"
      by (auto simp: cleanup_loop.simps [of clock i pk alive s acc] split: sum.splits)
    from cleanup_iteration_config [OF it] "1.IH" [OF True it refl rest]
    show ?thesis by (rule same_config_trans)
  qed
qed

lemma cleanup_loop_exit:
  "cleanup_loop clock i pk alive s acc = Inr (s', cl) \<Longrightarrow>
     mElementList s' = [] \<or> \<not> mMaxSizeSoftLimit s' <s mTotalSize s'"
proof (induction clock i pk alive s acc rule: cleanup_loop.induct)
  case (1 clock i pk alive s acc)
  show ?case
  proof (cases "mElementList s \<noteq> [] \<and> mMaxSizeSoftLimit s <s mTotalSize s")
    case False
    with "1.prems" show ?thesis
      by (auto simp: cleanup_loop.simps [of clock i pk alive s acc])
  next
    case True
    with "1.prems" obtain s1 c where
      it: "cleanup_iteration (clock i) pk alive s = Inr (s1, c)" and
      rest: "cleanup_loop clock (Suc i) pk alive s1 (acc @ c) = Inr (s', cl)"
      by (auto simp: cleanup_loop.simps [of clock i pk alive s acc] split: sum.splits)
    from "1.IH" [OF True it refl rest] show ?thesis .
  qed
qed

lemma getElement_config: "getElement alive now key s = Inr (r, s1) \<Longrightarrow> same_config s s1"
  by (auto simp: getElement_def same_config_def split: option.splits if_splits)

lemma updateElement_config:
  "updateElement element key sz now clock alive s = Inr (s', cl) \<Longrightarrow> same_config s s'"
  by (auto simp: updateElement_def cleanup_def split: sum.splits if_splits
           dest!: updateElement_locked_config cleanup_loop_config
           intro: same_config_trans same_config_refl)

lemma call_step_config: "call_step c s = Inr s' \<Longrightarrow> same_config s s'"
proof (cases c)
  case (Update element key sz now clock alive)
  then show "call_step c s = Inr s' \<Longrightarrow> same_config s s'"
    by (cases "updateElement element key sz now clock alive s")
       (auto dest: updateElement_config)
next
  case (Get alive now key)
  then show "call_step c s = Inr s' \<Longrightarrow> same_config s s'"
    by (cases "getElement alive now key s") (auto dest: getElement_config)
next
  case (Cleanup clock pk alive)
  then show "call_step c s = Inr s' \<Longrightarrow> same_config s s'"
    by (cases "cleanup clock pk alive s") (auto simp: cleanup_def dest: cleanup_loop_config)
qed

lemma run_config: "run cs s = Inr s' \<Longrightarrow> same_config s s'"
proof (induction cs arbitrary: s)
  case Nil
  then show ?case by (simp add: same_config_refl)
next
  case (Cons c cs)
  then show ?case
    by (auto split: sum.splits dest!: call_step_config intro: same_config_trans)
qed

lemma updateElement_locked_consistent:
  assumes "consistent s"
  shows "\<exists>s1. updateElement_locked element key sz now s = Inr s1 \<and> consistent s1"
proof (cases "mElementMap s key")
  case None
  show ?thesis
    unfolding updateElement_locked_None [OF None]
    using consistent_insert [OF assms None] by simp
next
  case (Some a)
  from consistentD_map [OF assms Some] obtain e where
    a: "a \<in> set (mElementList s)" and e: "mHeap s a = Some e" by blast
  show ?thesis
    unfolding updateElement_locked_Some [OF Some e a]
    using consistent_touch [OF assms Some e, of "e\<lparr> mElementSize := sz, mLastAccessTime := now \<rparr>"]
    by simp
qed

lemma cleanup_consistent:
  "consistent s \<Longrightarrow> cleanup clock pk alive s = Inr (s', cl) \<Longrightarrow> consistent s'"
  unfolding cleanup_def by (drule (1) cleanup_loop_effect) (simp add: cleanup_effect_def)

lemma updateElement_consistent:
  assumes "consistent s" "updateElement element key sz now clock alive s = Inr (s', cl)"
  shows "consistent s'"
proof -
  from updateElement_locked_consistent [OF assms(1)] obtain s1 where
    s1: "updateElement_locked element key sz now s = Inr s1" "consistent s1" by blast
  with assms(2) show ?thesis
    by (auto simp: updateElement_def split: if_splits dest: cleanup_consistent)
qed

lemma getElement_Some:
  "mElementMap s key = Some a \<Longrightarrow> mHeap s a = Some e \<Longrightarrow> a \<in> set (mElementList s) \<Longrightarrow>
   getElement alive now key s =
     Inr (if alive (mWeakPointerElement e) then Some (mWeakPointerElement e) else None,
          s\<lparr> mHeap := (mHeap s)(a \<mapsto> e\<lparr> mLastAccessTime := now \<rparr>),
             mElementList := remove1 a (mElementList s) @ [a] \<rparr>)"
  by (simp add: getElement_def)

lemma getElement_None: "mElementMap s key = None \<Longrightarrow> getElement alive now key s = Inr (None, s)"
  by (simp add: getElement_def)

lemma getElement_consistent:
  assumes "consistent s"
  shows "\<exists>r s1. getElement alive now key s = Inr (r, s1) \<and> consistent s1"
proof (cases "mElementMap s key")
  case None
  with assms show ?thesis by (simp add: getElement_None)
next
  case (Some a)
  from consistentD_map [OF assms Some] obtain e where
    a: "a \<in> set (mElementList s)" and e: "mHeap s a = Some e" by blast
  have "consistent (s\<lparr> mHeap := (mHeap s)(a \<mapsto> e\<lparr> mLastAccessTime := now \<rparr>),
             mElementList := remove1 a (mElementList s) @ [a],
             mElementSizeMap := mElementSizeMap s, mTotalSize := mTotalSize s \<rparr>)"
    by (rule consistent_touch [OF assms Some e]) simp
  then show ?thesis
    unfolding getElement_Some [OF Some e a] by simp
qed

lemma call_step_consistent: "consistent s \<Longrightarrow> call_step c s = Inr s' \<Longrightarrow> consistent s'"
proof (cases c)
  case (Update element key sz now clock alive)
  then show "consistent s \<Longrightarrow> call_step c s = Inr s' \<Longrightarrow> consistent s'"
    by (cases "updateElement element key sz now clock alive s")
       (auto dest: updateElement_consistent)
next
  case (Get alive now key)
  then show "consistent s \<Longrightarrow> call_step c s = Inr s' \<Longrightarrow> consistent s'"
    using getElement_consistent [of s alive now key] by auto
next
  case (Cleanup clock pk alive)
  then show "consistent s \<Longrightarrow> call_step c s = Inr s' \<Longrightarrow> consistent s'"
    by (cases "cleanup clock pk alive s") (auto dest: cleanup_consistent)
qed

lemma run_consistent: "consistent s \<Longrightarrow> run cs s = Inr s' \<Longrightarrow> consistent s'"
proof (induction cs arbitrary: s)
  case Nil
  then show ?case by simp
next
  case (Cons c cs)
  then show ?case
    by (auto split: sum.splits dest: call_step_consistent)
qed

lemma cleanup_iteration_map_None:
  "cleanup_iteration now pk alive s = Inr (s', c) \<Longrightarrow> mElementMap s k = None \<Longrightarrow>
     mElementMap s' k = None"
  by (auto simp: cleanup_iteration_def cleanup_select_def cleanup_evict_def
           split: sum.splits list.splits option.splits if_splits)

lemma cleanup_loop_map_None:
  "cleanup_loop clock i pk alive s acc = Inr (s', cl) \<Longrightarrow> mElementMap s k = None \<Longrightarrow>
     mElementMap s' k = None"
proof (induction clock i pk alive s acc rule: cleanup_loop.induct)
  case (1 clock i pk alive s acc)
  show ?case
  proof (cases "mElementList s \<noteq> [] \<and> mMaxSizeSoftLimit s <s mTotalSize s")
    case False
    with "1.prems" show ?thesis
      by (auto simp: cleanup_loop.simps [of clock i pk alive s acc])
  next
    case True
    with "1.prems" obtain s1 c where
      it: "cleanup_iteration (clock i) pk alive s = Inr (s1, c)" and
      rest: "cleanup_loop clock (Suc i) pk alive s1 (acc @ c) = Inr (s', cl)"
      by (auto simp: cleanup_loop.simps [of clock i pk alive s acc] split: sum.splits)
    from "1.IH" [OF True it refl rest cleanup_iteration_map_None [OF it "1.prems"(2)]]
    show ?thesis .
  qed
qed

lemma updateElement_locked_map_None:
  "updateElement_locked element key sz now s = Inr s1 \<Longrightarrow> k \<noteq> key \<Longrightarrow>
     mElementMap s k = None \<Longrightarrow> mElementMap s1 k = None"
  by (auto simp: updateElement_locked_def split: option.splits if_splits)

lemma call_step_map_None:
  assumes "call_step c s = Inr s'" "updated_key c \<noteq> Some k" "mElementMap s k = None"
  shows "mElementMap s' k = None"
proof (cases c)
  case (Update element key sz now clock alive)
  with assms(2) have ne: "k \<noteq> key" by auto
  from assms(1) Update obtain cl where
    u: "updateElement element key sz now clock alive s = Inr (s', cl)"
    by (cases "updateElement element key sz now clock alive s") auto
  then obtain s1 where l: "updateElement_locked element key sz now s = Inr s1"
    and r: "s' = s1 \<or> cleanup clock (Some key) alive s1 = Inr (s', cl)"
    by (auto simp: updateElement_def split: sum.splits if_splits)
  from updateElement_locked_map_None [OF l ne assms(3)] r show ?thesis
    by (auto simp: cleanup_def dest: cleanup_loop_map_None)
next
  case (Get alive now key)
  with assms(1,3) show ?thesis
    by (auto simp: getElement_def split: option.splits if_splits)
next
  case (Cleanup clock pk alive)
  with assms(1) obtain cl where "cleanup clock pk alive s = Inr (s', cl)"
    by (cases "cleanup clock pk alive s") auto
  with assms(3) show ?thesis
    by (auto simp: cleanup_def dest: cleanup_loop_map_None)
qed

lemma run_map_None:
  "run cs s = Inr s' \<Longrightarrow> Some k \<notin> updated_key ` set cs \<Longrightarrow> mElementMap s k = None \<Longrightarrow>
     mElementMap s' k = None"
proof (induction cs arbitrary: s)
  case Nil
  then show ?case by simp
next
  case (Cons c cs)
  from Cons.prems(1) obtain s1 where c: "call_step c s = Inr s1" and r: "run cs s1 = Inr s'"
    by (auto split: sum.splits)
  from Cons.prems(2) have nc: "updated_key c \<noteq> Some k" and ncs: "Some k \<notin> updated_key ` set cs"
    by (auto simp: image_iff)
  from call_step_map_None [OF c nc Cons.prems(3)] have "mElementMap s1 k = None" .
  from Cons.IH [OF r ncs this] show ?case .
qed

lemma filter_eq_single: "distinct xs \<Longrightarrow> a \<in> set xs \<Longrightarrow> filter (\<lambda>b. b = a) xs = [a]"
  by (induction xs) (auto simp: filter_empty_conv)

lemma consistent_key_iff:
  "consistent s \<Longrightarrow> b \<in> set (mElementList s) \<Longrightarrow>
     entry_key s b = Some k \<longleftrightarrow> mElementMap s k = Some b"
  unfolding consistent_def entry_key_def by auto

lemma consistent_distinct: "consistent s \<Longrightarrow> distinct (mElementList s)"
  by (simp add: consistent_def)

lemma sum_sizes_mset: "sum_sizes s = sum_mset (image_mset (entry_size s) (mset (mElementList s)))"
  by (simp add: sum_sizes_def flip: sum_mset_sum_list)

lemma consistent_keys: 
  assumes "consistent s"
  shows "keys_of_map s = keys_of_list s"
proof -
  have "k \<in> keys_of_map s \<longleftrightarrow> k \<in> keys_of_list s" for k
  proof -
    have "k \<in> keys_of_list s \<longleftrightarrow>
            (\<exists>a e. a \<in> set (mElementList s) \<and> mHeap s a = Some e \<and> mPrimaryKey e = k)"
      by (force simp: keys_of_list_def List.map_filter_def)
    also have "\<dots> \<longleftrightarrow> (\<exists>a. mElementMap s k = Some a)"
      using assms unfolding consistent_def by blast
    also have "\<dots> \<longleftrightarrow> k \<in> keys_of_map s"
      by (auto simp: keys_of_map_def)
    finally show ?thesis by simp
  qed
  then show ?thesis by blast
qed

lemma consistent_keys_distinct:
  assumes "consistent s"
  shows "distinct (map (entry_key s) (mElementList s))"
proof -
  have "inj_on (entry_key s) (set (mElementList s))"
  proof (rule inj_onI)
    fix a b assume a: "a \<in> set (mElementList s)" and b: "b \<in> set (mElementList s)"
      and eq: "entry_key s a = entry_key s b"
    from consistentD_list [OF assms a] obtain e where
      e: "mHeap s a = Some e" "mElementMap s (mPrimaryKey e) = Some a" by blast
    then have "entry_key s a = Some (mPrimaryKey e)" by (simp add: entry_key_def)
    with eq consistent_key_iff [OF assms b, of "mPrimaryKey e"] e(2) show "a = b" by simp
  qed
  with consistent_distinct [OF assms] show ?thesis by (simp add: distinct_map)
qed

lemma cleanup_loop_order:
  "consistent s \<Longrightarrow> cleanup_loop clock i pk alive s acc = Inr (s', cl) \<Longrightarrow>
     \<exists>P. mElementList s' = filter P (mElementList s)"
proof (induction clock i pk alive s acc rule: cleanup_loop.induct)
  case (1 clock i pk alive s acc)
  show ?case
  proof (cases "mElementList s \<noteq> [] \<and> mMaxSizeSoftLimit s <s mTotalSize s")
    case False
    with "1.prems" have "s' = s"
      by (auto simp: cleanup_loop.simps [of clock i pk alive s acc])
    then have "mElementList s' = filter (\<lambda>x. True) (mElementList s)" by simp
    then show ?thesis by blast
  next
    case True
    with "1.prems"(2) obtain s1 c where
      it: "cleanup_iteration (clock i) pk alive s = Inr (s1, c)" and
      rest: "cleanup_loop clock (Suc i) pk alive s1 (acc @ c) = Inr (s', cl)"
      by (auto simp: cleanup_loop.simps [of clock i pk alive s acc] split: sum.splits)
    from cleanup_iteration_consistent [OF "1.prems"(1) it] obtain b e where
      b: "b \<in> set (mElementList s)" and e: "mHeap s b = Some e" and
      s1: "s1 = s\<lparr> mElementList := remove1 b (mElementList s),
                    mElementSizeMap := mElementSizeMap s1,
                    mElementMap := (mElementMap s)(mPrimaryKey e := None),
                    mTotalSize := (if pk = Some (mPrimaryKey e) then mTotalSize s
                                   else mTotalSize s - mElementSize e) \<rparr>"
      by blast
    have c1: "consistent s1"
      by (subst s1) (rule consistent_remove [OF "1.prems"(1) b e])
    have l1: "mElementList s1 = remove1 b (mElementList s)"
      by (subst s1) simp
    from "1.IH" [OF True it refl c1 rest] obtain P where
      P: "mElementList s' = filter P (mElementList s1)" by blast
    have "remove1 b (mElementList s) = filter (\<lambda>x. b \<noteq> x) (mElementList s)"
      using consistent_distinct [OF "1.prems"(1)]
      by (simp add: distinct_remove1_removeAll removeAll_filter_not_eq)
    with P l1 have "mElementList s' = filter (\<lambda>x. b \<noteq> x \<and> P x) (mElementList s)"
      by simp
    then show ?thesis by blast
  qed
qed

lemma last_filter_snoc:
  "a \<in> set (filter P (xs @ [a])) \<Longrightarrow>
     filter P (xs @ [a]) \<noteq> [] \<and> last (filter P (xs @ [a])) = a"
  by (cases "P a") auto

lemma consistent_key_absent:
  assumes "consistent s'" and "mHeap s' = mHeap s1" and "consistent s1"
    and "set (mElementList s') \<subseteq> set (mElementList s1)"
    and "mElementMap s1 key = Some a"
  shows "(a \<notin> set (mElementList s') \<longrightarrow> mElementMap s' key = None \<and> key \<notin> keys_of_list s') \<and>
         (a \<in> set (mElementList s') \<longrightarrow> mElementMap s' key = Some a)"
proof (intro conjI impI)
  assume na: "a \<notin> set (mElementList s')"
  show m: "mElementMap s' key = None"
  proof (rule ccontr)
    assume "mElementMap s' key \<noteq> None"
    then obtain b where b: "mElementMap s' key = Some b" by auto
    from consistentD_map [OF assms(1) b] obtain e where
      "b \<in> set (mElementList s')" "mHeap s' b = Some e" "mPrimaryKey e = key" by blast
    then have "b \<in> set (mElementList s1)" "entry_key s1 b = Some key"
      using assms(2,4) by (auto simp: entry_key_def)
    with consistent_key_iff [OF assms(3), of b key] assms(5) have "b = a" by simp
    with \<open>b \<in> set (mElementList s')\<close> na show False by simp
  qed
  show "key \<notin> keys_of_list s'"
    using consistent_keys [OF assms(1)] m by (auto simp: keys_of_map_def)
next
  assume ia: "a \<in> set (mElementList s')"
  from consistentD_map [OF assms(3,5)] obtain e where
    "mHeap s1 a = Some e" "mPrimaryKey e = key" by blast
  then have "entry_key s' a = Some key" using assms(2) by (simp add: entry_key_def)
  with consistent_key_iff [OF assms(1) ia, of key] show "mElementMap s' key = Some a" by simp
qed

lemmas model_defs =
  new_LRUCache_def updateElement_def updateElement_locked_def getElement_def cleanup_def
  cleanup_loop.simps cleanup_iteration_def cleanup_select_def cleanup_evict_def
  at_time_def all_alive_def three_inserts_def reordered_def oversized_twice_def
  grown_past_hard_limit_def

lemmas observe_defs =
  observe_def index_keys_def dumpCache_def keys_of_map_def keys_of_list_def
  keys_of_sizeMap_def List.map_filter_def

section \<open>The claims\<close>

text \<open>
  C1, as stated, fails: when the total already exceeded the entries' sizes before the
  call, the excess after the call is larger than the size of the protected entry (two
  oversized updates of one key leave a total of 400 with no entry, the entry's size
  being 200).
  C1 as amended: for every call of \<open>cleanup\<close> with a key to save that returns, from a
  state whose map and list agree, if the entry with that key is evicted during the call,
  then it has left the map and the list, its payload is not collected and its size is
  not subtracted: the payloads collected are exactly the live payloads of the other
  evicted entries, the total drops by exactly their sizes, and so the excess of the total
  over the summed sizes of the remaining entries has grown by the protected entry's
  size. (Nothing is said about the size map.)
\<close>

theorem protected_key_eviction:
  assumes "consistent s"
    and "cleanup clock (Some key) alive s = Inr (s', cl)"
    and "mElementMap s key = Some a"
    and "a \<notin> set (mElementList s')"
  shows "mElementMap s' key = None \<and> key \<notin> keys_of_list s' \<and>
         mset cl = sum_mset (image_mset (\<lambda>b. mset (entry_payload alive s b))
                     (evicted s s' - {#a#})) \<and>
         mTotalSize s' = mTotalSize s - sum_mset (image_mset (entry_size s) (evicted s s' - {#a#})) \<and>
         excess s' = excess s + entry_size s a"
proof -
  from cleanup_loop_effect [OF assms(1) assms(2) [unfolded cleanup_def]]
  have eff: "cleanup_effect (Some key) alive s [] s' cl" .
  then have c': "consistent s'" and h: "mHeap s' = mHeap s"
    and le: "mset (mElementList s') \<subseteq># mset (mElementList s)"
    and mp: "\<And>k. mElementMap s' k =
               (if Some k \<in> entry_key s ` set_mset (evicted s s') then None else mElementMap s k)"
    and tot: "mTotalSize s' =
               mTotalSize s - sum_mset (image_mset (subtracted (Some key) s) (evicted s s'))"
    and col: "mset cl = sum_mset (image_mset (collected (Some key) alive s) (evicted s s'))"
    by (simp_all add: cleanup_effect_def)
  from consistentD_map [OF assms(1,3)] obtain e where
    a: "a \<in> set (mElementList s)" and e: "mHeap s a = Some e" and k: "mPrimaryKey e = key"
    by blast
  have ka: "entry_key s a = Some key" using e k by (simp add: entry_key_def)
  have d: "distinct (mElementList s)" by (rule consistent_distinct [OF assms(1)])
  have c1: "count (mset (mElementList s)) a = 1"
    using a d by (simp add: distinct_count_atmost_1)
  have c0: "count (mset (mElementList s')) a = 0"
    using assms(4) by (simp add: count_eq_zero_iff)
  have cnt: "count (evicted s s') a = 1"
    unfolding evicted_def count_diff c1 c0 by simp
  then have a_ev: "a \<in># evicted s s'" by (metis count_greater_zero_iff zero_less_one)
  define others where "others = evicted s s' - {#a#}"
  have ev: "evicted s s' = add_mset a others"
    unfolding others_def using a_ev by simp
  have a_not: "a \<notin># others"
    using cnt unfolding ev by (simp add: count_eq_zero_iff [symmetric])
  have oth: "Some key \<noteq> entry_key s b" if "b \<in># others" for b
  proof -
    from that have "b \<in># evicted s s'" by (simp add: ev)
    then have "b \<in> set (mElementList s)"
      unfolding evicted_def by (meson in_diffD in_multiset_in_set)
    moreover from that a_not have "b \<noteq> a" by auto
    ultimately show ?thesis
      using consistent_key_iff [OF assms(1), of b key] assms(3) by auto
  qed
  have sub: "image_mset (subtracted (Some key) s) others = image_mset (entry_size s) others"
    by (rule image_mset_cong) (simp add: subtracted_def oth)
  have cols: "image_mset (collected (Some key) alive s) others =
                image_mset (\<lambda>b. mset (entry_payload alive s b)) others"
    by (rule image_mset_cong) (simp add: collected_def oth)
  have m: "mElementMap s' key = None"
    using mp [of key] a_ev ka by (auto simp: image_iff)
  have kl: "key \<notin> keys_of_list s'"
  proof
    assume "key \<in> keys_of_list s'"
    then obtain b e' where "b \<in> set (mElementList s')" "mHeap s' b = Some e'"
      "mPrimaryKey e' = key"
      by (auto simp: keys_of_list_def List.map_filter_def)
    then have "mElementMap s' key = Some b"
      using c' unfolding consistent_def by blast
    with m show False by simp
  qed
  have t: "mTotalSize s' = mTotalSize s - sum_mset (image_mset (entry_size s) others)"
    using tot by (simp add: ev sub subtracted_def ka)
  have c: "mset cl = sum_mset (image_mset (\<lambda>b. mset (entry_payload alive s b)) others)"
    using col by (simp add: ev cols collected_def ka)
  have es: "entry_size s' = entry_size s"
    by (simp add: fun_eq_iff entry_size_def h)
  have "mset (mElementList s) = mset (mElementList s') + evicted s s'"
    unfolding evicted_def using le by simp
  then have "sum_sizes s = sum_sizes s' + (entry_size s a + sum_mset (image_mset (entry_size s) others))"
    by (simp add: sum_sizes_mset es ev)
  with t have "excess s' = excess s + entry_size s a"
    by (simp add: excess_def)
  with m kl t c show ?thesis by (simp add: others_def)
qed

theorem protected_key_eviction_witness:
  "\<exists>s s' cl. run three_inserts (new_LRUCache 60 100 5 0) = Inr s \<and> consistent s \<and>
     cleanup (at_time 3) (Some 1) all_alive s = Inr (s', cl) \<and>
     mElementMap s 1 = Some 0 \<and> 0 \<notin> set (mElementList s') \<and>
     mElementMap s' 1 = None \<and> 1 \<notin> keys_of_list s' \<and> cl = [2] \<and>
     mTotalSize s = 65 \<and> excess s = 0 \<and>
     mTotalSize s' = 45 \<and> excess s' = 20"
proof -
  have "\<exists>s. run three_inserts (new_LRUCache 60 100 5 0) = Inr s \<and>
          mElementMap s 1 = Some 0 \<and> mTotalSize s = 65 \<and> sum_sizes s = 65 \<and>
          entry_size s 0 = 20 \<and>
          (\<exists>s'. cleanup (at_time 3) (Some 1) all_alive s = Inr (s', [2]) \<and>
                mElementList s' = [2] \<and> mTotalSize s' = 45)"
    by (simp add: model_defs sum_sizes_def entry_size_def)
  then obtain s s' where s: "run three_inserts (new_LRUCache 60 100 5 0) = Inr s"
    "mElementMap s 1 = Some 0" "mTotalSize s = 65" "sum_sizes s = 65" "entry_size s 0 = 20"
    and s': "cleanup (at_time 3) (Some 1) all_alive s = Inr (s', [2])"
    "mElementList s' = [2]" "mTotalSize s' = 45" by blast
  have c: "consistent s" by (rule run_consistent [OF consistent_new s(1)])
  have n: "0 \<notin> set (mElementList s')" using s'(2) by simp
  from protected_key_eviction [OF c s'(1) s(2) n]
  have "mElementMap s' 1 = None" "1 \<notin> keys_of_list s'"
    "excess s' = excess s + entry_size s 0"
    by blast+
  with s s' c n show ?thesis by (simp add: excess_def)
qed

theorem protected_key_eviction_counterexample:
  "map_sum id observe (run (take 1 oversized_twice) (new_LRUCache 60 100 5 0)) =
     Inr ([], [], 200) \<and>
   map_sum id excess (run (take 1 oversized_twice) (new_LRUCache 60 100 5 0)) = Inr 200 \<and>
   map_sum id observe (run oversized_twice (new_LRUCache 60 100 5 0)) =
     Inr ([], [], 400) \<and>
   map_sum id excess (run oversized_twice (new_LRUCache 60 100 5 0)) = Inr 400"
  by (simp add: model_defs observe_defs excess_def sum_sizes_def)

text \<open>
  C2 (a stale iteration evicts an entry whose size is the largest in the size map) fails
  on the code in a state the run \<open>reordered\<close> leads to, which leaves key 1 in map and
  list and the pair of key 2 in the size map (see C3). With soft limit 25, after that run
  key 2 is inserted again with size 10: the size map holds the pairs (10, 2) and the
  left-over (20, 2), the list the entries of key 1 (size 20) and key 2 (size 10), total
  30. The cleanup at second 10 finds the head stale, takes the pair (20, 2) of the largest
  size and evicts the entry of key 2, of size 10; the entry of size 20 stays.
\<close>

theorem stale_eviction_not_largest:
  "map_sum id observe
     (run (reordered @ [Update 4 2 10 3 (at_time 3) all_alive]) (new_LRUCache 25 100 5 0)) =
     Inr ([(1, 20, 1), (2, 10, 3)], [(10, 2), (20, 2)], 30) \<and>
   map_sum id observe
     (run (reordered @ [Update 4 2 10 3 (at_time 3) all_alive,
                        Cleanup (at_time 10) None all_alive]) (new_LRUCache 25 100 5 0)) =
     Inr ([(1, 20, 1)], [(10, 2)], 20)"
  by (simp add: model_defs observe_defs)

text \<open>
  C3 (the three indices hold the same keys in every reachable state) fails on the code.
  With soft limit 30: keys 1 and 2 are inserted with size 20, key 1 is read by
  \<open>getElement\<close>, which moves it behind key 2 in the list but not in the size map, and a
  cleanup with both entries fresh evicts the list head, key 2, while \<open>find(20)\<close>
  erases the pair of key 1 from the size map. Afterwards map and list hold key 1 and the
  size map holds key 2.
\<close>

theorem index_key_sets_differ:
  "map_sum id index_keys (run reordered (new_LRUCache 30 100 5 0)) = Inr ({1}, {1}, {2})"
  by (simp add: model_defs observe_defs)

text \<open>
  C4 (cleanup returns for every state, with the total at most the soft limit or the list
  empty) fails on the code in a state the run \<open>reordered\<close> leads to (see C3). With
  soft limit 25, after that run key 3 is inserted with size 15: total 35, the size map
  holds (15, 3) and the left-over (20, 2). The cleanup at second 10 finds the head stale
  and takes the pair (20, 2); key 2 is not in the map, \<open>mElementMap[2]\<close> yields a null
  pointer and the call dereferences it.
\<close>

theorem cleanup_null_dereference:
  "map_sum id observe
     (run (reordered @ [Update 3 3 15 3 (at_time 3) all_alive]) (new_LRUCache 25 100 5 0)) =
     Inr ([(1, 20, 1), (3, 15, 3)], [(15, 3), (20, 2)], 35) \<and>
   run (reordered @ [Update 3 3 15 3 (at_time 3) all_alive,
                     Cleanup (at_time 10) None all_alive]) (new_LRUCache 25 100 5 0) =
     Inl NullDeref"
  by (simp add: model_defs observe_defs)

text \<open>
  C5, as stated, fails: a second update of a present key whose size lifts the total above
  the hard limit is followed by the cleanup, which may evict the updated entry itself (its
  key is only saved from the callback and the subtraction), so no entry for the key is left.
  C5 as amended: in a state whose map and list agree, the critical section of an update of
  a present key never fails, whatever the size, and leaves the map with one entry for the
  key, the same entry as before, with the size and time of this update, at the tail of the
  list, no other entry of the list having this key. Whenever the update returns, either
  the total exceeded the hard limit and the cleanup evicted the updated entry, so that no
  entry of the map or the list has the key, or the map still holds that one entry for the
  key, with the size and time of this update, at the tail of the list, and no other entry
  of the list has the key. At or below the hard limit the update returns the state of the
  critical section.
\<close>

theorem update_present_key:
  assumes "consistent s" and "mElementMap s key = Some a"
  shows "\<exists>s1 e. updateElement_locked element key sz now s = Inr s1 \<and>
           mElementMap s1 key = Some a \<and> mHeap s1 a = Some e \<and>
           mElementSize e = sz \<and> mLastAccessTime e = now \<and> mPrimaryKey e = key \<and>
           mElementList s1 = remove1 a (mElementList s) @ [a] \<and>
           filter (\<lambda>b. entry_key s1 b = Some key) (mElementList s1) = [a] \<and>
           (\<not> mMaxSizeHardLimit s1 <s mTotalSize s1 \<longrightarrow>
              updateElement element key sz now clock alive s = Inr (s1, [])) \<and>
           (\<forall>s' cl. updateElement element key sz now clock alive s = Inr (s', cl) \<longrightarrow>
              (mElementMap s' key = None \<and> key \<notin> keys_of_list s' \<and>
               mMaxSizeHardLimit s1 <s mTotalSize s1) \<or>
              (mElementMap s' key = Some a \<and> mHeap s' a = Some e \<and>
               mElementList s' \<noteq> [] \<and> last (mElementList s') = a \<and>
               filter (\<lambda>b. entry_key s' b = Some key) (mElementList s') = [a]))"
proof -
  from consistentD_map [OF assms] obtain e where
    a: "a \<in> set (mElementList s)" and e: "mHeap s a = Some e" and k: "mPrimaryKey e = key"
    by blast
  let ?e = "e\<lparr> mElementSize := sz, mLastAccessTime := now \<rparr>"
  let ?s1 = "s\<lparr> mHeap := (mHeap s)(a \<mapsto> ?e),
             mElementList := remove1 a (mElementList s) @ [a],
             mElementSizeMap :=
               sizeMap_insert sz key (sizeMap_erase_key (mElementSize e) key (mElementSizeMap s)),
             mTotalSize := mTotalSize s - mElementSize e + sz \<rparr>"
  have l: "updateElement_locked element key sz now s = Inr ?s1"
    by (rule updateElement_locked_Some [OF assms(2) e a])
  have c1: "consistent ?s1"
    by (rule consistent_touch [OF assms e]) simp
  have m1: "mElementMap ?s1 key = Some a" using assms(2) by simp
  have h1: "mHeap ?s1 a = Some ?e" by simp
  have l1: "mElementList ?s1 = remove1 a (mElementList s) @ [a]" by simp
  have single: "filter (\<lambda>b. entry_key t b = Some key) (mElementList t) = [a]"
    if "consistent t" "mElementMap t key = Some a" "a \<in> set (mElementList t)" for t :: "('a, 'b) LRUCache"
  proof -
    have "filter (\<lambda>b. entry_key t b = Some key) (mElementList t) =
            filter (\<lambda>b. b = a) (mElementList t)"
      by (rule filter_cong [OF refl]) (use consistent_key_iff [OF that(1)] that(2) in auto)
    also have "\<dots> = [a]"
      by (rule filter_eq_single [OF consistent_distinct [OF that(1)] that(3)])
    finally show ?thesis .
  qed
  have f: "filter (\<lambda>b. entry_key ?s1 b = Some key) (mElementList ?s1) = [a]"
    by (rule single [OF c1 m1]) simp
  have u: "\<not> mMaxSizeHardLimit ?s1 <s mTotalSize ?s1 \<longrightarrow>
              updateElement element key sz now clock alive s = Inr (?s1, [])"
    by (simp add: updateElement_def l)
  have fin: "(mElementMap s' key = None \<and> key \<notin> keys_of_list s' \<and>
               mMaxSizeHardLimit ?s1 <s mTotalSize ?s1) \<or>
              (mElementMap s' key = Some a \<and> mHeap s' a = Some ?e \<and>
               mElementList s' \<noteq> [] \<and> last (mElementList s') = a \<and>
               filter (\<lambda>b. entry_key s' b = Some key) (mElementList s') = [a])"
    if r: "updateElement element key sz now clock alive s = Inr (s', cl)" for s' cl
  proof (cases "mMaxSizeHardLimit ?s1 <s mTotalSize ?s1")
    case False
    with r have "s' = ?s1" by (simp add: updateElement_def l)
    with m1 h1 f show ?thesis by simp
  next
    case True
    with r have cu: "cleanup_loop clock 0 (Some key) alive ?s1 [] = Inr (s', cl)"
      by (simp add: updateElement_def l cleanup_def)
    from cleanup_loop_effect [OF c1 cu] have c': "consistent s'" and hp: "mHeap s' = mHeap ?s1"
      by (simp_all add: cleanup_effect_def)
    from cleanup_loop_order [OF c1 cu] obtain P where
      P: "mElementList s' = filter P (remove1 a (mElementList s) @ [a])" by auto
    then have sub: "set (mElementList s') \<subseteq> set (mElementList ?s1)" by auto
    note ka = consistent_key_absent [OF c' hp c1 sub m1]
    show ?thesis
    proof (cases "a \<in> set (mElementList s')")
      case False
      with ka True show ?thesis by blast
    next
      case ia: True
      with ka have m': "mElementMap s' key = Some a" by blast
      from ia last_filter_snoc [of a P "remove1 a (mElementList s)"] P
      have "mElementList s' \<noteq> [] \<and> last (mElementList s') = a" by simp
      moreover have "mHeap s' a = Some ?e" using hp by simp
      moreover note single [OF c' m' ia] m'
      ultimately show ?thesis by blast
    qed
  qed
  have "mElementMap ?s1 key = Some a \<and> mHeap ?s1 a = Some ?e \<and>
           mElementSize ?e = sz \<and> mLastAccessTime ?e = now \<and> mPrimaryKey ?e = key \<and>
           mElementList ?s1 = remove1 a (mElementList s) @ [a]"
    using assms(2) k by simp
  with l f u fin show ?thesis by blast
qed

theorem update_present_key_witness:
  "\<exists>s s' s'' e e'. run uneven_inserts (new_LRUCache 85 100 5 0) = Inr s \<and>
     consistent s \<and> mElementMap s 1 = Some 0 \<and> mElementList s = [0, 1, 2] \<and>
     updateElement 1 1 30 4 (at_time 4) all_alive s = Inr (s', []) \<and>
     mElementList s' = [1, 2, 0] \<and> last (mElementList s') = 0 \<and>
     mElementMap s' 1 = Some 0 \<and> mHeap s' 0 = Some e \<and>
     mElementSize e = 30 \<and> mLastAccessTime e = 4 \<and>
     updateElement 1 1 60 4 (at_time 4) all_alive s = Inr (s'', [2]) \<and>
     mElementList s'' = [2, 0] \<and> last (mElementList s'') = 0 \<and>
     mElementMap s'' 1 = Some 0 \<and> mHeap s'' 0 = Some e' \<and>
     mElementSize e' = 60 \<and> mLastAccessTime e' = 4"
proof -
  have "\<exists>s. run uneven_inserts (new_LRUCache 85 100 5 0) = Inr s \<and>
          mElementMap s 1 = Some 0 \<and> mElementList s = [0, 1, 2] \<and>
          (\<exists>s'. updateElement 1 1 30 4 (at_time 4) all_alive s = Inr (s', []) \<and>
                 mElementList s' = [1, 2, 0] \<and> mElementMap s' 1 = Some 0) \<and>
          (\<exists>s''. updateElement 1 1 60 4 (at_time 4) all_alive s = Inr (s'', [2]) \<and>
                 mElementList s'' = [2, 0] \<and> mElementMap s'' 1 = Some 0)"
    by (simp add: model_defs uneven_inserts_def)
  then obtain s s' s'' where s: "run uneven_inserts (new_LRUCache 85 100 5 0) = Inr s"
    "mElementMap s 1 = Some 0" "mElementList s = [0, 1, 2]"
    and s': "updateElement 1 1 30 4 (at_time 4) all_alive s = Inr (s', [])"
      "mElementList s' = [1, 2, 0]" "mElementMap s' 1 = Some 0"
    and s'': "updateElement 1 1 60 4 (at_time 4) all_alive s = Inr (s'', [2])"
      "mElementList s'' = [2, 0]" "mElementMap s'' 1 = Some 0" by blast
  have c: "consistent s" by (rule run_consistent [OF consistent_new s(1)])
  from update_present_key [OF c s(2), of 1 30 4 "at_time 4" all_alive] s'(1,3) obtain e where
    e: "mElementSize e = 30" "mLastAccessTime e = 4" "mHeap s' 0 = Some e"
       "last (mElementList s') = 0"
    by fastforce
  from update_present_key [OF c s(2), of 1 60 4 "at_time 4" all_alive] s''(1,3) obtain e' where
    e': "mElementSize e' = 60" "mLastAccessTime e' = 4" "mHeap s'' 0 = Some e'"
       "last (mElementList s'') = 0"
    by fastforce
  from s s' s'' c e e' show ?thesis by blast
qed

theorem update_present_key_counterexample:
  "map_sum id index_keys (run (take 1 grown_past_hard_limit) (new_LRUCache 60 100 5 0)) =
     Inr ({1}, {1}, {1}) \<and>
   map_sum id index_keys (run grown_past_hard_limit (new_LRUCache 60 100 5 0)) =
     Inr ({}, {}, {}) \<and>
   map_sum id observe (run grown_past_hard_limit (new_LRUCache 60 100 5 0)) =
     Inr ([], [], 200)"
  by (simp add: model_defs observe_defs)

text \<open>
  C6: once the critical section of \<open>updateElement\<close> has completed, \<open>cleanup\<close> is called
  with the updated key as the key to save exactly when the total exceeds the hard limit;
  otherwise the update returns the state of the critical section, collects no payload and
  evicts nothing: every entry of the list and every key of the map is still there.
\<close>

theorem hard_limit_decides_cleanup:
  assumes "updateElement_locked element key sz now s = Inr s1"
  shows "(mMaxSizeHardLimit s1 <s mTotalSize s1 \<longrightarrow>
            updateElement element key sz now clock alive s = cleanup clock (Some key) alive s1) \<and>
         (\<not> mMaxSizeHardLimit s1 <s mTotalSize s1 \<longrightarrow>
            updateElement element key sz now clock alive s = Inr (s1, []) \<and>
            set (mElementList s) \<subseteq> set (mElementList s1) \<and>
            keys_of_map s \<subseteq> keys_of_map s1)"
proof -
  have "x = a \<or> x \<in> set (remove1 a xs)" if "x \<in> set xs" for x a :: nat and xs
    using that by (metis in_set_remove1)
  then have "set (mElementList s) \<subseteq> set (mElementList s1) \<and> keys_of_map s \<subseteq> keys_of_map s1"
    using assms
    by (fastforce simp: updateElement_locked_def keys_of_map_def split: option.splits if_splits)
  then show ?thesis using assms by (simp add: updateElement_def)
qed

theorem hard_limit_decides_cleanup_witness:
  "\<exists>s1 s2. updateElement_locked (1::nat) (1::int) 20 0 (new_LRUCache 60 100 5 0) = Inr s1 \<and>
     \<not> mMaxSizeHardLimit s1 <s mTotalSize s1 \<and>
     updateElement 1 1 20 0 (at_time 0) all_alive (new_LRUCache 60 100 5 0) = Inr (s1, []) \<and>
     updateElement_locked (2::nat) (2::int) 90 1 s1 = Inr s2 \<and>
     mMaxSizeHardLimit s2 <s mTotalSize s2 \<and>
     updateElement 2 2 90 1 (at_time 1) all_alive s1 = cleanup (at_time 1) (Some 2) all_alive s2"
proof -
  let ?c = "new_LRUCache 60 100 5 0 :: (nat, int) LRUCache"
  have "\<exists>s1. updateElement_locked 1 1 20 0 ?c = Inr s1 \<and> mMaxSizeHardLimit s1 = 100 \<and>
          mTotalSize s1 = 20"
    by (simp add: model_defs)
  then obtain s1 where s1: "updateElement_locked 1 1 20 0 ?c = Inr s1"
    "mMaxSizeHardLimit s1 = 100" "mTotalSize s1 = 20" by blast
  have "mElementMap s1 2 = None"
    using s1(1) by (auto simp: model_defs)
  then have "\<exists>s2. updateElement_locked 2 2 90 1 s1 = Inr s2 \<and> mMaxSizeHardLimit s2 = 100 \<and>
          mTotalSize s2 = 110"
    using s1(2,3) by (simp add: updateElement_locked_def)
  then obtain s2 where s2: "updateElement_locked 2 2 90 1 s1 = Inr s2"
    "mMaxSizeHardLimit s2 = 100" "mTotalSize s2 = 110" by blast
  have a: "\<not> mMaxSizeHardLimit s1 <s mTotalSize s1" using s1 by simp
  have b: "mMaxSizeHardLimit s2 <s mTotalSize s2" using s2 by simp
  from hard_limit_decides_cleanup [OF s1(1), of "at_time 0" all_alive]
       hard_limit_decides_cleanup [OF s2(1), of "at_time 1" all_alive] a b s1(1) s2(1)
  show ?thesis by blast
qed

text \<open>
  C7: in a cleanup iteration whose list head is not stale (the time since its last access
  is at most the threshold) the entry evicted is the head itself: it leaves the list, its
  key leaves the map, and unless its key is the one to save, its size is subtracted and its
  payload collected if alive. (The pair erased from the size map is the first one of the
  head's size.) In the scenario with soft limit 60 and inserts of sizes 20, 20, 25, a
  manual cleanup while all are fresh evicts only the first key and leaves the total at 45.
\<close>

theorem fresh_head_evicted:
  assumes "mElementList s = front # rest" and "mHeap s front = Some fe"
    and "\<not> mTimeThresholdSec s <s now - mLastAccessTime fe"
  shows "cleanup_iteration now keyToSaveFromPurge alive s =
           Inr (s\<lparr> mElementList := rest,
                   mElementSizeMap := sizeMap_erase_first (mElementSize fe) (mElementSizeMap s),
                   mElementMap := (mElementMap s)(mPrimaryKey fe := None),
                   mTotalSize := (if keyToSaveFromPurge = Some (mPrimaryKey fe) then mTotalSize s
                                  else mTotalSize s - mElementSize fe) \<rparr>,
                if keyToSaveFromPurge = Some (mPrimaryKey fe) then []
                else if alive (mWeakPointerElement fe) then [mWeakPointerElement fe] else []) \<and>
         map_sum id observe
           (run (three_inserts @ [Cleanup (at_time 3) None all_alive]) (new_LRUCache 60 100 5 0)) =
           Inr ([(2, 20, 0), (3, 25, 0)], [(20, 2), (25, 3)], 45)"
proof
  show "cleanup_iteration now keyToSaveFromPurge alive s =
           Inr (s\<lparr> mElementList := rest,
                   mElementSizeMap := sizeMap_erase_first (mElementSize fe) (mElementSizeMap s),
                   mElementMap := (mElementMap s)(mPrimaryKey fe := None),
                   mTotalSize := (if keyToSaveFromPurge = Some (mPrimaryKey fe) then mTotalSize s
                                  else mTotalSize s - mElementSize fe) \<rparr>,
                if keyToSaveFromPurge = Some (mPrimaryKey fe) then []
                else if alive (mWeakPointerElement fe) then [mWeakPointerElement fe] else [])"
    using assms by (simp add: cleanup_iteration_def cleanup_select_def cleanup_evict_def)
  show "map_sum id observe
           (run (three_inserts @ [Cleanup (at_time 3) None all_alive]) (new_LRUCache 60 100 5 0)) =
           Inr ([(2, 20, 0), (3, 25, 0)], [(20, 2), (25, 3)], 45)"
    by (simp add: model_defs observe_defs)
qed

theorem fresh_head_evicted_witness:
  "\<exists>s fe s'. run three_inserts (new_LRUCache 60 100 5 0) = Inr s \<and>
     mElementList s = [0, 1, 2] \<and> mHeap s 0 = Some fe \<and>
     \<not> mTimeThresholdSec s <s 3 - mLastAccessTime fe \<and>
     cleanup_iteration 3 None all_alive s = Inr (s', [1]) \<and>
     mElementList s' = [1, 2] \<and> mTotalSize s' = 45 \<and> mElementMap s' 1 = None"
proof -
  let ?fe = "\<lparr> mLastAccessTime = 0, mElementSize = 20, mWeakPointerElement = 1::nat,
               mPrimaryKey = 1::int \<rparr>"
  have "\<exists>s. run three_inserts (new_LRUCache 60 100 5 0) = Inr s \<and>
     mElementList s = [0, 1, 2] \<and> mHeap s 0 = Some ?fe \<and> mTimeThresholdSec s = 5 \<and>
     mTotalSize s = 65"
    by (simp add: model_defs)
  then obtain s where s: "run three_inserts (new_LRUCache 60 100 5 0) = Inr s"
    "mElementList s = [0, 1, 2]" "mHeap s 0 = Some ?fe" "mTimeThresholdSec s = 5"
    "mTotalSize s = 65" by blast
  have fresh: "\<not> mTimeThresholdSec s <s 3 - mLastAccessTime ?fe"
    using s(4) by simp
  from fresh_head_evicted [OF s(2) s(3) fresh, of None all_alive]
  have "cleanup_iteration 3 None all_alive s =
          Inr (s\<lparr> mElementList := [1, 2],
                  mElementSizeMap := sizeMap_erase_first 20 (mElementSizeMap s),
                  mElementMap := (mElementMap s)(1 := None),
                  mTotalSize := 45 \<rparr>, [1])"
    using s(5) by (simp add: all_alive_def)
  with s fresh show ?thesis by force
qed

text \<open>
  C8, as stated, fails: between two \<open>getElement\<close> calls the owner of the payload may
  release it, which is no operation of the cache; the first call then returns the pointer
  and the second \<open>nullptr\<close>.
  C8 as amended: in every reachable state, two \<open>getElement\<close> calls in a row on a key that
  is present lock the same weak pointer: each returns that payload if it is alive at the
  time of the call and \<open>nullptr\<close> otherwise, so both return the same whenever the
  payload is as alive at the second call as at the first; both leave the total unchanged;
  and \<open>getElement\<close> on a key no call ever updated returns \<open>nullptr\<close> and leaves the
  state as it is.
\<close>

theorem get_twice_same_payload:
  assumes "run cs (new_LRUCache softSizeLimit hardSizeLimit timeThresholdSec cleaningIntervalMs)
             = Inr s"
  shows "(key \<in> keys_of_map s \<longrightarrow>
            (\<exists>p s1 s2.
               getElement alive now key s =
                 Inr (if alive p then Some p else None, s1) \<and>
               getElement alive' now' key s1 =
                 Inr (if alive' p then Some p else None, s2) \<and>
               mTotalSize s1 = mTotalSize s \<and> mTotalSize s2 = mTotalSize s)) \<and>
         (Some key \<notin> updated_key ` set cs \<longrightarrow> getElement alive now key s = Inr (None, s))"
proof (intro conjI impI)
  assume "key \<in> keys_of_map s"
  then obtain a where m: "mElementMap s key = Some a" by (auto simp: keys_of_map_def)
  have c: "consistent s" using run_consistent [OF consistent_new assms] .
  from consistentD_map [OF c m] obtain e where
    a: "a \<in> set (mElementList s)" and e: "mHeap s a = Some e" by blast
  let ?s1 = "s\<lparr> mHeap := (mHeap s)(a \<mapsto> e\<lparr> mLastAccessTime := now \<rparr>),
                 mElementList := remove1 a (mElementList s) @ [a] \<rparr>"
  let ?p = "mWeakPointerElement e"
  have g1: "getElement alive now key s = Inr (if alive ?p then Some ?p else None, ?s1)"
    by (rule getElement_Some [OF m e a])
  have "\<exists>s2. getElement alive' now' key ?s1 = Inr (if alive' ?p then Some ?p else None, s2) \<and>
          mTotalSize s2 = mTotalSize s"
    using m by (subst getElement_Some [of _ _ a "e\<lparr> mLastAccessTime := now \<rparr>"]) simp_all
  with g1 show "\<exists>p s1 s2.
               getElement alive now key s =
                 Inr (if alive p then Some p else None, s1) \<and>
               getElement alive' now' key s1 =
                 Inr (if alive' p then Some p else None, s2) \<and>
               mTotalSize s1 = mTotalSize s \<and> mTotalSize s2 = mTotalSize s"
    by force
next
  assume "Some key \<notin> updated_key ` set cs"
  from run_map_None [OF assms this] have "mElementMap s key = None"
    by (simp add: new_LRUCache_def)
  then show "getElement alive now key s = Inr (None, s)" by (rule getElement_None)
qed

theorem get_twice_same_payload_witness:
  "\<exists>s s1 s2 s3. run three_inserts (new_LRUCache 60 100 5 0) = Inr s \<and>
     2 \<in> keys_of_map s \<and>
     getElement all_alive 1 2 s = Inr (Some 2, s1) \<and>
     getElement all_alive 2 2 s1 = Inr (Some 2, s2) \<and>
     getElement none_alive 2 2 s1 = Inr (None, s3) \<and>
     mTotalSize s1 = 65 \<and> mTotalSize s2 = 65 \<and> mTotalSize s3 = 65 \<and>
     Some 7 \<notin> updated_key ` set three_inserts \<and>
     getElement all_alive 1 7 s = Inr (None, s)"
proof -
  have "\<exists>s. run three_inserts (new_LRUCache 60 100 5 0) = Inr s \<and> mElementMap s 2 = Some 1 \<and>
          mHeap s 1 = Some \<lparr> mLastAccessTime = 0, mElementSize = 20, mWeakPointerElement = 2,
                              mPrimaryKey = 2 \<rparr> \<and> mTotalSize s = 65"
    by (simp add: model_defs)
  then obtain s where s: "run three_inserts (new_LRUCache 60 100 5 0) = Inr s"
    "mElementMap s 2 = Some 1"
    "mHeap s 1 = Some \<lparr> mLastAccessTime = 0, mElementSize = 20, mWeakPointerElement = 2,
                              mPrimaryKey = 2 \<rparr>" "mTotalSize s = 65" by blast
  have k: "2 \<in> keys_of_map s" using s(2) by (auto simp: keys_of_map_def)
  have n: "Some 7 \<notin> updated_key ` set three_inserts" by (simp add: three_inserts_def)
  from get_twice_same_payload [OF s(1), of 2 all_alive 1 all_alive 2] k obtain p s1 s2 where
    g: "getElement all_alive 1 2 s = Inr (if all_alive p then Some p else None, s1)"
       "getElement all_alive 2 2 s1 = Inr (if all_alive p then Some p else None, s2)"
       "mTotalSize s1 = mTotalSize s" "mTotalSize s2 = mTotalSize s" by blast
  have p: "p = 2" using g(1) s(2,3)
    by (auto simp: getElement_def all_alive_def split: if_splits)
  from get_twice_same_payload [OF s(1), of 2 all_alive 1 none_alive 2] k g(1) obtain s3 where
    h: "getElement none_alive 2 2 s1 = Inr (None, s3)" "mTotalSize s3 = mTotalSize s"
    by (auto simp: none_alive_def)
  from get_twice_same_payload [OF s(1), of 7 all_alive 1] n
  have "getElement all_alive 1 7 s = Inr (None, s)" by blast
  with s g p h k n show ?thesis by (auto simp: all_alive_def)
qed

theorem get_twice_same_payload_counterexample:
  "map_sum id fst (and_then (run three_inserts (new_LRUCache 60 100 5 0))
                    (getElement all_alive 1 2)) = Inr (Some 2) \<and>
   map_sum id fst (and_then (run (three_inserts @ [Get all_alive 1 2]) (new_LRUCache 60 100 5 0))
                    (getElement none_alive 2 2)) = Inr None"
  by (simp add: model_defs and_then_def none_alive_def)

text \<open>
  C9: once the cleaner thread reads the shutdown flag as set, it leaves its loop and
  calls \<open>cleanup\<close> no more: whatever \<open>wait_for\<close> and the flag would show in later
  iterations, the thread's actions are those up to the iteration that read the flag, and
  the last of them is the exit.
\<close>

theorem no_cleanup_after_shutdown_observed:
  "runCleanerThreadLoop (earlier @ (status, True) # later) =
     runCleanerThreadLoop (earlier @ [(status, True)]) \<and>
   (\<exists>events. runCleanerThreadLoop (earlier @ (status, True) # later) = events @ [LoopExit]) \<and>
   runCleanerThreadLoop (map (\<lambda>x. (fst x, False)) earlier @ (status, True) # later) =
     map (\<lambda>x. CallCleanup) (filter (\<lambda>x. fst x = timeout) (earlier @ [(status, True)])) @
     [LoopExit]"
proof (induction earlier)
  case Nil
  show ?case by (cases "status = timeout") auto
next
  case (Cons x xs)
  obtain st fin where x: "x = (st, fin)" by (cases x)
  from Cons obtain events where
    ev: "runCleanerThreadLoop (xs @ (status, True) # later) = events @ [LoopExit]" by blast
  show ?case
  proof (cases fin)
    case True
    then show ?thesis using x Cons by (cases "st = timeout") auto
  next
    case False
    have "runCleanerThreadLoop ((x # xs) @ (status, True) # later) =
            ((if st = timeout then [CallCleanup] else []) @ events) @ [LoopExit]"
      using x False ev by simp
    moreover have "runCleanerThreadLoop ((x # xs) @ (status, True) # later) =
            runCleanerThreadLoop ((x # xs) @ [(status, True)])"
      using x False Cons by simp
    moreover have
      "runCleanerThreadLoop (map (\<lambda>x. (fst x, False)) (x # xs) @ (status, True) # later) =
         map (\<lambda>x. CallCleanup)
           (filter (\<lambda>x. fst x = timeout) ((x # xs) @ [(status, True)])) @ [LoopExit]"
      using x Cons by simp
    ultimately show ?thesis by blast
  qed
qed

text \<open>
  C10: the soft limit, the hard limit, the time threshold and the cleaning interval given
  to the constructor are never modified afterwards: in every state reached from the new
  cache by updates, gets and cleanups, the four read accessors return the constructor's
  arguments.
\<close>

theorem config_never_modified:
  assumes "run cs (new_LRUCache softSizeLimit hardSizeLimit timeThresholdSec cleaningIntervalMs)
             = Inr s"
  shows "getSoftMaxSize s = softSizeLimit \<and> getMaxSize s = hardSizeLimit \<and>
         getTimeThreshold s = timeThresholdSec \<and> getCleaningInterval s = cleaningIntervalMs"
  using run_config [OF assms]
  by (simp add: same_config_def new_LRUCache_def getSoftMaxSize_def getMaxSize_def
        getTimeThreshold_def getCleaningInterval_def)

theorem config_never_modified_witness:
  "\<exists>s. run (three_inserts @ [Get all_alive 1 1, Cleanup (at_time 2) None all_alive])
          (new_LRUCache 60 100 5 500) = Inr s \<and>
       getSoftMaxSize s = 60 \<and> getMaxSize s = 100 \<and>
       getTimeThreshold s = 5 \<and> getCleaningInterval s = 500"
proof -
  have "\<exists>s. run (three_inserts @ [Get all_alive 1 1, Cleanup (at_time 2) None all_alive])
          (new_LRUCache 60 100 5 500) = Inr s"
    by (simp add: model_defs)
  then obtain s where
    r: "run (three_inserts @ [Get all_alive 1 1, Cleanup (at_time 2) None all_alive])
          (new_LRUCache 60 100 5 500) = Inr s" by blast
  from config_never_modified [OF r] r show ?thesis by blast
qed

section \<open>Further properties of the code\<close>

text \<open>
  The Key Index and the Recency Index do agree: in every state reached from the new cache
  by updates, gets and cleanups, the map and the list hold the same keys, no two entries
  of the list have one key, and the map sends a key to an entry exactly when the entry is
  in the list and has this key.
\<close>

theorem key_and_recency_index_agree:
  assumes "run cs (new_LRUCache softSizeLimit hardSizeLimit timeThresholdSec cleaningIntervalMs)
             = Inr s"
  shows "keys_of_map s = keys_of_list s \<and> distinct (map (entry_key s) (mElementList s)) \<and>
         (\<forall>k a. mElementMap s k = Some a \<longleftrightarrow>
                  a \<in> set (mElementList s) \<and> entry_key s a = Some k)"
proof -
  have c: "consistent s" by (rule run_consistent [OF consistent_new assms])
  have "mElementMap s k = Some a \<longleftrightarrow> a \<in> set (mElementList s) \<and> entry_key s a = Some k"
    for k a
    using consistent_key_iff [OF c, of a k] consistentD_map [OF c, of k a] by blast
  with consistent_keys [OF c] consistent_keys_distinct [OF c] show ?thesis by blast
qed

theorem key_and_recency_index_agree_witness:
  "\<exists>s. run reordered (new_LRUCache 30 100 5 0) = Inr s \<and>
     keys_of_map s = {1} \<and> keys_of_list s = {1} \<and> keys_of_sizeMap s = {2}"
proof -
  have "\<exists>s. run reordered (new_LRUCache 30 100 5 0) = Inr s \<and> keys_of_map s = {1} \<and>
          keys_of_sizeMap s = {2}"
    by (simp add: model_defs observe_defs)
  then obtain s where s: "run reordered (new_LRUCache 30 100 5 0) = Inr s"
    "keys_of_map s = {1}" "keys_of_sizeMap s = {2}" by blast
  from key_and_recency_index_agree [OF s(1)] s show ?thesis by auto
qed

text \<open>
  The loop of \<open>cleanup\<close> cannot run forever (\<open>cleanup_loop\<close> is a total function: every
  iteration that completes takes one entry out of the list), and whenever \<open>cleanup\<close>
  returns, the list is empty or the total is at most the soft limit, which the call has
  not changed. After the two oversized updates of one key the list is empty while the
  total is 400.
\<close>

theorem cleanup_exit_condition:
  assumes "cleanup clock keyToSaveFromPurge alive s = Inr (s', cl)"
  shows "(mElementList s' = [] \<or> \<not> mMaxSizeSoftLimit s' <s mTotalSize s') \<and>
         mMaxSizeSoftLimit s' = mMaxSizeSoftLimit s"
  using cleanup_loop_exit [OF assms [unfolded cleanup_def]]
        cleanup_loop_config [OF assms [unfolded cleanup_def]]
  by (simp add: same_config_def)

theorem cleanup_exit_condition_witness:
  "\<exists>s s' cl. run oversized_twice (new_LRUCache 60 100 5 0) = Inr s \<and>
     cleanup (at_time 2) None all_alive s = Inr (s', cl) \<and>
     mElementList s' = [] \<and> mMaxSizeSoftLimit s' <s mTotalSize s'"
proof -
  have "\<exists>s. run oversized_twice (new_LRUCache 60 100 5 0) = Inr s \<and>
          (\<exists>s' cl. cleanup (at_time 2) None all_alive s = Inr (s', cl) \<and>
             mMaxSizeSoftLimit s' <s mTotalSize s')"
    by (simp add: model_defs)
  then obtain s s' cl where s: "run oversized_twice (new_LRUCache 60 100 5 0) = Inr s"
    "cleanup (at_time 2) None all_alive s = Inr (s', cl)"
    "mMaxSizeSoftLimit s' <s mTotalSize s'" by blast
  from cleanup_exit_condition [OF s(2)] s(3) have "mElementList s' = []" by blast
  with s show ?thesis by blast
qed

text \<open>
  The stale branch: when the list head is stale, the iteration takes the first pair of the
  largest size in the size map and evicts the entry the map holds for the key of that
  pair, wherever it stands in the list. In the scenario with soft limit 60 and inserts of
  sizes 20, 20, 25, the cleanup at second 6 evicts the entry of size 25 and leaves the
  total at 40.
\<close>

theorem stale_head_evicts_size_map_choice:
  assumes "consistent s"
    and "mElementList s = front # rest" and "mHeap s front = Some fe"
    and "mTimeThresholdSec s <s now - mLastAccessTime fe"
    and "sizeMap_find (fst (last (mElementSizeMap s))) (mElementSizeMap s) = Some (sz, k)"
    and "mElementMap s k = Some a" and "mHeap s a = Some e"
  shows "cleanup_iteration now keyToSaveFromPurge alive s =
           Inr (s\<lparr> mElementSizeMap :=
                     sizeMap_erase_first (fst (last (mElementSizeMap s))) (mElementSizeMap s),
                   mElementList := remove1 a (mElementList s),
                   mElementMap := (mElementMap s)(k := None),
                   mTotalSize := (if keyToSaveFromPurge = Some k then mTotalSize s
                                  else mTotalSize s - mElementSize e) \<rparr>,
                if keyToSaveFromPurge = Some k then []
                else if alive (mWeakPointerElement e) then [mWeakPointerElement e] else [])"
proof -
  from consistentD_map [OF assms(1,6)] assms(7) have
    a: "a \<in> set (mElementList s)" and k: "mPrimaryKey e = k" by auto
  have ne: "mElementSizeMap s \<noteq> []" using assms(5) by auto
  have "cleanup_select now s =
          Inr (a, s\<lparr> mElementSizeMap :=
                     sizeMap_erase_first (fst (last (mElementSizeMap s))) (mElementSizeMap s),
                   mElementList := remove1 a (mElementList s) \<rparr>)"
    using assms(2-7) a k ne unfolding cleanup_select_def
    by (simp del: remove1.simps)
  then show ?thesis
    using assms(7) k by (simp add: cleanup_iteration_def cleanup_evict_def)
qed

theorem stale_head_evicts_size_map_choice_witness:
  "\<exists>s fe e s'. run three_inserts (new_LRUCache 60 100 5 0) = Inr s \<and> consistent s \<and>
     mElementList s = [0, 1, 2] \<and> mHeap s 0 = Some fe \<and>
     mTimeThresholdSec s <s 6 - mLastAccessTime fe \<and>
     sizeMap_find (fst (last (mElementSizeMap s))) (mElementSizeMap s) = Some (25, 3) \<and>
     mElementMap s 3 = Some 2 \<and> mHeap s 2 = Some e \<and>
     cleanup_iteration 6 None all_alive s = Inr (s', [3]) \<and>
     mElementList s' = [0, 1] \<and> mTotalSize s' = 40"
proof -
  let ?fe = "\<lparr> mLastAccessTime = 0, mElementSize = 20, mWeakPointerElement = 1::nat,
               mPrimaryKey = 1::int \<rparr>"
  let ?e = "\<lparr> mLastAccessTime = 0, mElementSize = 25, mWeakPointerElement = 3::nat,
               mPrimaryKey = 3::int \<rparr>"
  have "\<exists>s. run three_inserts (new_LRUCache 60 100 5 0) = Inr s \<and>
     mElementList s = [0, 1, 2] \<and> mHeap s 0 = Some ?fe \<and> mTimeThresholdSec s = 5 \<and>
     mTotalSize s = 65 \<and> mElementSizeMap s = [(20, 1), (20, 2), (25, 3)] \<and>
     mElementMap s 3 = Some 2 \<and> mHeap s 2 = Some ?e"
    by (simp add: model_defs)
  then obtain s where s: "run three_inserts (new_LRUCache 60 100 5 0) = Inr s"
    "mElementList s = [0, 1, 2]" "mHeap s 0 = Some ?fe" "mTimeThresholdSec s = 5"
    "mTotalSize s = 65" "mElementSizeMap s = [(20, 1), (20, 2), (25, 3)]"
    "mElementMap s 3 = Some 2" "mHeap s 2 = Some ?e" by blast
  have c: "consistent s" by (rule run_consistent [OF consistent_new s(1)])
  have st: "mTimeThresholdSec s <s 6 - mLastAccessTime ?fe" using s(4) by simp
  have f: "sizeMap_find (fst (last (mElementSizeMap s))) (mElementSizeMap s) = Some (25, 3)"
    using s(6) by simp
  from stale_head_evicts_size_map_choice [OF c s(2) s(3) st f s(7) s(8), of None all_alive]
  have "cleanup_iteration 6 None all_alive s =
          Inr (s\<lparr> mElementSizeMap := [(20, 1), (20, 2)], mElementList := [0, 1],
                  mElementMap := (mElementMap s)(3 := None), mTotalSize := 40 \<rparr>, [3])"
    using s(2,5,6) by (simp add: all_alive_def)
  with s c st f show ?thesis by force
qed

end
